theory Spec2Isabelle
  imports Main "HOL-Library.Sublist"
begin

section \<open>Python strings\<close>

text \<open>
  A Python \<^verbatim>\<open>str\<close> is a sequence of Unicode code points, so it is modelled as a list of
  natural numbers; \<open>len\<close> is \<open>length\<close>. Literals of the source are written with \<open>py\<close>.
\<close>

type_synonym pystr = "nat list"

definition py :: "string \<Rightarrow> pystr" where
  "py s = map of_char s"

text \<open>
  The characters that \<^verbatim>\<open>str.split()\<close> (called without a separator) and the regular
  expression class \<^verbatim>\<open>\s\<close> treat as whitespace: TAB..CR, FS..US, SPACE, NEL, NBSP and the
  Unicode space separators.
\<close>

definition isspace :: "nat \<Rightarrow> bool" where
  "isspace c \<longleftrightarrow>
     (9 \<le> c \<and> c \<le> 13) \<or> (28 \<le> c \<and> c \<le> 32) \<or> c = 133 \<or> c = 160 \<or> c = 5760 \<or>
     (8192 \<le> c \<and> c \<le> 8202) \<or> c = 8232 \<or> c = 8233 \<or> c = 8239 \<or> c = 8287 \<or> c = 12288"

text \<open>
  \<^verbatim>\<open>text.split()\<close>: the maximal runs of non-whitespace characters, in order. The first
  argument of \<open>split_from\<close> is the word read so far.
\<close>

fun split_from :: "pystr \<Rightarrow> pystr \<Rightarrow> pystr list" where
  "split_from w [] = (if w = [] then [] else [w])"
| "split_from w (c # cs) =
     (if isspace c then (if w = [] then [] else [w]) @ split_from [] cs
      else split_from (w @ [c]) cs)"

definition str_split :: "pystr \<Rightarrow> pystr list" where
  "str_split text = split_from [] text"

text \<open>\<^verbatim>\<open>sep.join(xs)\<close>.\<close>

fun str_join :: "pystr \<Rightarrow> pystr list \<Rightarrow> pystr" where
  "str_join sep [] = []"
| "str_join sep [x] = x"
| "str_join sep (x # y # ys) = x @ sep @ str_join sep (y # ys)"

definition space :: pystr where
  "space = [32]"

section \<open>The chunker\<close>

text \<open>
  \<^verbatim>\<open>chunk_text(text, max_size)\<close>. The \<^verbatim>\<open>for word in words\<close> loop is \<open>chunk_loop\<close>; its
  arguments after the word list are the loop's variables \<^verbatim>\<open>chunks\<close>,
  \<^verbatim>\<open>current_chunk\<close> and \<^verbatim>\<open>current_size\<close>, and its result is \<^verbatim>\<open>chunks\<close> after the
  final flush of a non-empty \<^verbatim>\<open>current_chunk\<close>.
\<close>

definition MAX_CHUNK_SIZE :: int where
  "MAX_CHUNK_SIZE = 2500"

fun chunk_loop :: "int \<Rightarrow> pystr list \<Rightarrow> pystr list \<Rightarrow> pystr list \<Rightarrow> int \<Rightarrow> pystr list" where
  "chunk_loop max_size [] chunks current_chunk current_size =
     (if current_chunk \<noteq> [] then chunks @ [str_join space current_chunk] else chunks)"
| "chunk_loop max_size (word # words) chunks current_chunk current_size =
     (let word_size = int (length word) + 1 in
      if current_size + word_size > max_size * 4 then
        if current_chunk \<noteq> [] then
          chunk_loop max_size words (chunks @ [str_join space current_chunk]) [word] (0 + word_size)
        else
          chunk_loop max_size words chunks (current_chunk @ [word]) (current_size + word_size)
      else
        chunk_loop max_size words chunks (current_chunk @ [word]) (current_size + word_size))"

definition chunk_text :: "pystr \<Rightarrow> int \<Rightarrow> pystr list" where
  "chunk_text text max_size =
     (let words = str_split text;
          chunks = chunk_loop max_size words [] [] 0
      in if chunks \<noteq> [] then chunks else [text])"

text \<open>
  The grouping of the words that the loop performs, kept as lists of words: the loop's
  chunks are these groups, each joined with a space.
\<close>

fun chunk_groups :: "int \<Rightarrow> pystr list \<Rightarrow> pystr list \<Rightarrow> int \<Rightarrow> pystr list list" where
  "chunk_groups max_size [] current_chunk current_size =
     (if current_chunk \<noteq> [] then [current_chunk] else [])"
| "chunk_groups max_size (word # words) current_chunk current_size =
     (let word_size = int (length word) + 1 in
      if current_size + word_size > max_size * 4 \<and> current_chunk \<noteq> [] then
        current_chunk # chunk_groups max_size words [word] word_size
      else
        chunk_groups max_size words (current_chunk @ [word]) (current_size + word_size))"

text \<open>The running size is the sum of the word lengths of the current chunk, each plus one.\<close>

definition size_of :: "pystr list \<Rightarrow> int" where
  "size_of ws = (\<Sum>w\<leftarrow>ws. int (length w) + 1)"

definition is_word :: "pystr \<Rightarrow> bool" where
  "is_word w \<longleftrightarrow> w \<noteq> [] \<and> (\<forall>c\<in>set w. \<not> isspace c)"

section \<open>Decoded JSON and the MCQ model\<close>

text \<open>
  The values \<^verbatim>\<open>json.loads\<close> produces. A Python \<^verbatim>\<open>dict\<close> is an association list read
  with \<open>map_of\<close>; a \<^verbatim>\<open>float\<close> is kept as the text of its literal, since nothing in the
  program computes with one. In Python \<^verbatim>\<open>bool\<close> is a subclass of \<^verbatim>\<open>int\<close>, which
  \<open>as_int\<close> records: it is the value that \<^verbatim>\<open>isinstance(v, int)\<close> sees, if any.
\<close>

datatype json =
    JNull
  | JBool bool
  | JInt int
  | JFloat pystr
  | JString pystr
  | JArray "json list"
  | JObject "(pystr \<times> json) list"

definition as_int :: "json \<Rightarrow> int option" where
  "as_int v = (case v of JInt i \<Rightarrow> Some i | JBool b \<Rightarrow> Some (if b then 1 else 0) | _ \<Rightarrow> None)"

text \<open>\<^verbatim>\<open>class MCQ(BaseModel)\<close>.\<close>

record MCQ =
  question :: pystr
  options :: "pystr list"
  answer :: int
  explanation :: "pystr option"

text \<open>
  Constructing an \<^verbatim>\<open>MCQ\<close> validates the declared field types and raises a validation
  error otherwise (\<open>None\<close> here). A field declared \<^verbatim>\<open>str\<close> takes a string as it is and
  rejects \<^verbatim>\<open>None\<close>, a list and a dict. Whether a number or a boolean is rendered as text or
  rejected differs between the releases of the validation library, so that conversion is
  the parameter \<open>coerce\<close>. \<^verbatim>\<open>Optional[str]\<close> also takes \<^verbatim>\<open>None\<close>.
\<close>

definition str_field :: "(json \<Rightarrow> pystr option) \<Rightarrow> json \<Rightarrow> pystr option" where
  "str_field coerce v =
     (case v of
        JString s \<Rightarrow> Some s
      | JInt i \<Rightarrow> coerce v
      | JFloat f \<Rightarrow> coerce v
      | JBool b \<Rightarrow> coerce v
      | _ \<Rightarrow> None)"

definition optional_str_field :: "(json \<Rightarrow> pystr option) \<Rightarrow> json \<Rightarrow> pystr option option" where
  "optional_str_field coerce v =
     (case v of JNull \<Rightarrow> Some None | _ \<Rightarrow> map_option Some (str_field coerce v))"

definition MCQ_new ::
  "(json \<Rightarrow> pystr option) \<Rightarrow> json \<Rightarrow> json list \<Rightarrow> int \<Rightarrow> json \<Rightarrow> MCQ option" where
  "MCQ_new coerce q os a e =
     (case str_field coerce q of
        None \<Rightarrow> None
      | Some q' \<Rightarrow>
          (case those (map (str_field coerce) os) of
             None \<Rightarrow> None
           | Some os' \<Rightarrow>
               (case optional_str_field coerce e of
                  None \<Rightarrow> None
                | Some e' \<Rightarrow>
                    Some \<lparr>question = q', options = os', answer = a, explanation = e'\<rparr>)))"

section \<open>The record validator\<close>

text \<open>
  \<^verbatim>\<open>validate_mcq(mcq_dict)\<close>. The body runs under \<^verbatim>\<open>try ... except Exception: return None\<close>,
  so every exception is the result \<open>None\<close>. On a value that is not a dict either the
  membership test or the subscript \<^verbatim>\<open>mcq_dict["options"]\<close> raises \<^verbatim>\<open>TypeError\<close>.
\<close>

definition validate_mcq :: "(json \<Rightarrow> pystr option) \<Rightarrow> json \<Rightarrow> MCQ option" where
  "validate_mcq coerce mcq_dict =
     (case mcq_dict of
        JObject d \<Rightarrow>
          (if \<not> list_all (\<lambda>key. map_of d key \<noteq> None)
                  [py ''question'', py ''options'', py ''answer'']
           then None
           else
             (case (map_of d (py ''question''), map_of d (py ''options''), map_of d (py ''answer'')) of
                (Some q, Some (JArray os), Some a) \<Rightarrow>
                  (if length os \<noteq> 4 then None
                   else
                     (case as_int a of
                        None \<Rightarrow> None
                      | Some i \<Rightarrow>
                          (if \<not> (0 \<le> i \<and> i \<le> 3) then None
                           else MCQ_new coerce q os i
                                  (case map_of d (py ''explanation'') of
                                     Some e \<Rightarrow> e
                                   | None \<Rightarrow> JString []))))
              | _ \<Rightarrow> None))
      | _ \<Rightarrow> None)"

text \<open>
  The acceptance conditions as the specification words them: the three keys are present,
  \<^verbatim>\<open>options\<close> is an array of exactly four elements and \<^verbatim>\<open>answer\<close> is an integer from 0
  to 3.
\<close>

definition spec_conditions :: "json \<Rightarrow> bool" where
  "spec_conditions v =
     (case v of
        JObject d \<Rightarrow>
          (case (map_of d (py ''question''), map_of d (py ''options''), map_of d (py ''answer'')) of
             (Some q, Some (JArray os), Some (JInt i)) \<Rightarrow> length os = 4 \<and> 0 \<le> i \<and> i \<le> 3
           | _ \<Rightarrow> False)
      | _ \<Rightarrow> False)"

text \<open>The conversion of the release that renders nothing: a number is not a string.\<close>

definition strict :: "json \<Rightarrow> pystr option" where
  "strict v = None"

section \<open>Exceptions\<close>

text \<open>
  The exceptions that leave a function of the program: an \<^verbatim>\<open>HTTPException\<close> with its status
  code and the reason the program gives, and the exceptions of the interpreter and of the
  JSON decoder that no \<^verbatim>\<open>except\<close> clause of the caller names.
\<close>

datatype cause =
    CannotConnect
  | TimedOut
  | OllamaError
  | EmptyText
  | BadCount
  | BadDifficulty
  | NoValidMCQs

datatype error =
    HTTPException int cause
  | TypeError
  | ValueError
  | RecursionError

section \<open>The response parser\<close>

text \<open>
  The pattern \<^verbatim>\<open>```(?:json)?\s*(\[.*?\])\s*```\<close> with \<^verbatim>\<open>re.DOTALL\<close>. \<open>fence_body\<close> is the
  lazy \<^verbatim>\<open>.*?\<close>: it extends the group one character at a time until a \<^verbatim>\<open>]\<close> is
  followed by optional whitespace and the closing fence. \<open>fence_at\<close> matches the pattern
  at the start of its argument and \<open>search_fence\<close> is \<^verbatim>\<open>re.search\<close>, which tries every
  start position from the left; the result is \<^verbatim>\<open>group(1)\<close>.
\<close>

definition fence :: pystr where
  "fence = [96, 96, 96]"

fun fence_body :: "pystr \<Rightarrow> pystr \<Rightarrow> pystr option" where
  "fence_body acc [] = None"
| "fence_body acc (c # cs) =
     (if c = 93 \<and> prefix fence (dropWhile isspace cs) then Some (acc @ [c])
      else fence_body (acc @ [c]) cs)"

definition fence_at :: "pystr \<Rightarrow> pystr option" where
  "fence_at s =
     (if prefix fence s then
        (let s1 = drop 3 s;
             s2 = (if prefix (py ''json'') s1 then drop 4 s1 else s1)
         in case dropWhile isspace s2 of
              [] \<Rightarrow> None
            | c # cs \<Rightarrow> if c = 91 then fence_body [c] cs else None)
      else None)"

fun search_fence :: "pystr \<Rightarrow> pystr option" where
  "search_fence [] = fence_at []"
| "search_fence (c # cs) =
     (case fence_at (c # cs) of Some g \<Rightarrow> Some g | None \<Rightarrow> search_fence cs)"

text \<open>
  The pattern \<^verbatim>\<open>\[.*\]\<close> with \<^verbatim>\<open>re.DOTALL\<close>: from the first \<^verbatim>\<open>[\<close> to the last \<^verbatim>\<open>]\<close>
  after it; the result is \<^verbatim>\<open>group(0)\<close>.
\<close>

definition search_bracket :: "pystr \<Rightarrow> pystr option" where
  "search_bracket s =
     (let t = dropWhile (\<lambda>c. c \<noteq> 91) s
      in if 93 \<in> set t then Some (rev (dropWhile (\<lambda>c. c \<noteq> 93) (rev t))) else None)"

text \<open>
  The second pattern read as a description of the texts it matches: \<open>fence_matches s g\<close>
  holds when \<open>s\<close> starts with a fence, an optional \<^verbatim>\<open>json\<close>, whitespace, the group \<open>g\<close>
  from a \<^verbatim>\<open>[\<close> to a \<^verbatim>\<open>]\<close>, whitespace and a fence.
\<close>

definition fence_matches :: "pystr \<Rightarrow> pystr \<Rightarrow> bool" where
  "fence_matches s g \<longleftrightarrow>
     (\<exists>tag ws1 mid ws2 rest.
        s = fence @ tag @ ws1 @ g @ ws2 @ fence @ rest \<and>
        (tag = [] \<or> tag = py ''json'') \<and> list_all isspace ws1 \<and> list_all isspace ws2 \<and>
        g = [91] @ mid @ [93])"

text \<open>
  What \<^verbatim>\<open>json.loads\<close> does with a text is outside the program: it returns a value, raises
  \<^verbatim>\<open>JSONDecodeError\<close>, or raises another exception (\<^verbatim>\<open>RecursionError\<close> on deep nesting,
  \<^verbatim>\<open>ValueError\<close> on an integer literal with too many digits). The decoder is the parameter
  \<open>loads\<close>.
\<close>

datatype loaded =
    Loaded json
  | JSONDecodeError
  | Raises error

text \<open>
  \<^verbatim>\<open>extract_json_from_response(response)\<close>. Each \<^verbatim>\<open>try\<close> catches \<^verbatim>\<open>json.JSONDecodeError\<close> only,
  so any other exception of the decoder leaves the function (\<open>Inl\<close>). \<open>third_strategy\<close> is
  the function from line 203 on and \<open>second_strategy\<close> the function from line 195 on. The
  second and third strategy return what the decoder gives without looking at its type.
\<close>

definition third_strategy :: "(pystr \<Rightarrow> loaded) \<Rightarrow> pystr \<Rightarrow> error + json" where
  "third_strategy loads response =
     (case search_bracket response of
        Some g \<Rightarrow>
          (case loads g of
             Loaded data \<Rightarrow> Inr data
           | JSONDecodeError \<Rightarrow> Inr (JArray [])
           | Raises e \<Rightarrow> Inl e)
      | None \<Rightarrow> Inr (JArray []))"

definition second_strategy :: "(pystr \<Rightarrow> loaded) \<Rightarrow> pystr \<Rightarrow> error + json" where
  "second_strategy loads response =
     (case search_fence response of
        Some g \<Rightarrow>
          (case loads g of
             Loaded data \<Rightarrow> Inr data
           | JSONDecodeError \<Rightarrow> third_strategy loads response
           | Raises e \<Rightarrow> Inl e)
      | None \<Rightarrow> third_strategy loads response)"

definition extract_json_from_response :: "(pystr \<Rightarrow> loaded) \<Rightarrow> pystr \<Rightarrow> error + json" where
  "extract_json_from_response loads response =
     (case loads response of
        Loaded data \<Rightarrow>
          (case data of
             JArray xs \<Rightarrow> Inr data
           | _ \<Rightarrow> second_strategy loads response)
      | JSONDecodeError \<Rightarrow> second_strategy loads response
      | Raises e \<Rightarrow> Inl e)"

text \<open>
  The decoder reads a document whose first character is \<^verbatim>\<open>[\<close> as a list or fails; both
  patterns capture such a text.
\<close>

definition reads_arrays :: "(pystr \<Rightarrow> loaded) \<Rightarrow> bool" where
  "reads_arrays loads \<longleftrightarrow>
     (\<forall>s v. loads (91 # s) = Loaded v \<longrightarrow> (\<exists>xs. v = JArray xs))"

section \<open>The generation client\<close>

text \<open>
  What \<^verbatim>\<open>requests.post\<close> does is outside the program: it raises a connection error, a
  timeout or another exception, or returns a response with a status code and a body;
  the body is given as \<^verbatim>\<open>response.json()\<close> decodes it, \<open>None\<close> when that raises. The
  service is a function of a state of the world \<open>'w\<close> and the prompt.
\<close>

datatype post_result =
    ConnectionError
  | Timeout
  | OtherException
  | Response int "json option"

text \<open>
  \<^verbatim>\<open>call_ollama_generate(prompt)\<close>. The \<^verbatim>\<open>HTTPException\<close> raised for a status other than
  200 is raised inside the \<^verbatim>\<open>try\<close> and caught by \<^verbatim>\<open>except Exception\<close>, which raises status
  500 again; so does a body that does not decode or is not a dict.
\<close>

definition call_ollama_generate ::
  "('w \<Rightarrow> pystr \<Rightarrow> post_result \<times> 'w) \<Rightarrow> 'w \<Rightarrow> pystr \<Rightarrow> (error + json) \<times> 'w" where
  "call_ollama_generate post w prompt =
     (case post w prompt of
        (ConnectionError, w') \<Rightarrow> (Inl (HTTPException 503 CannotConnect), w')
      | (Timeout, w') \<Rightarrow> (Inl (HTTPException 504 TimedOut), w')
      | (OtherException, w') \<Rightarrow> (Inl (HTTPException 500 OllamaError), w')
      | (Response status_code body, w') \<Rightarrow>
          (if status_code \<noteq> 200 then (Inl (HTTPException 500 OllamaError), w')
           else
             (case body of
                Some (JObject result) \<Rightarrow>
                  (Inr (case map_of result (py ''response'') of Some v \<Rightarrow> v | None \<Rightarrow> JString []), w')
              | _ \<Rightarrow> (Inl (HTTPException 500 OllamaError), w'))))"

section \<open>The orchestrator\<close>

definition MAX_QUESTIONS_PER_CHUNK :: int where
  "MAX_QUESTIONS_PER_CHUNK = 5"

text \<open>\<^verbatim>\<open>str(n)\<close> for an integer, as \<^verbatim>\<open>str.format\<close> renders it.\<close>

function str_nat :: "nat \<Rightarrow> pystr" where
  "str_nat n = (if n < 10 then [48 + n] else str_nat (n div 10) @ [48 + n mod 10])"
  by pat_completeness auto
termination
  by (relation "measure id") auto

definition str_int :: "int \<Rightarrow> pystr" where
  "str_int i = (if i < 0 then 45 # str_nat (nat (- i)) else str_nat (nat i))"

text \<open>\<^verbatim>\<open>OLLAMA_PROMPT.format(n_questions=..., difficulty=..., text=...)\<close>.\<close>

definition format_prompt :: "int \<Rightarrow> pystr \<Rightarrow> pystr \<Rightarrow> pystr" where
  "format_prompt n_questions difficulty text =
     concat
       [py ''You are an expert educator creating multiple-choice questions.'', [10], [10],
        py ''Given the following text, generate '', str_int n_questions,
        py '' multiple-choice questions at '', difficulty, py '' difficulty level.'', [10], [10],
        py ''TEXT:'', [10], text, [10], [10], py ''REQUIREMENTS:'', [10],
        py ''- Generate exactly '', str_int n_questions, py '' questions'', [10],
        py ''- Difficulty: '', difficulty, [10],
        py ''- Each question must have exactly 4 options (A, B, C, D)'', [10],
        py ''- One option must be correct'', [10],
        py ''- Include a brief explanation for the correct answer'', [10], [10],
        py ''OUTPUT FORMAT (CRITICAL - MUST BE VALID JSON):'', [10],
        py ''Return ONLY a JSON array with this exact structure, no other text:'', [10], py ''['',
        [10], py ''  {'', [10], py ''    '', [34], py ''question'', [34], py '': '', [34],
        py ''Question text here?'', [34], py '','', [10], py ''    '', [34], py ''options'', [34],
        py '': ['', [34], py ''Option A'', [34], py '', '', [34], py ''Option B'', [34], py '', '',
        [34], py ''Option C'', [34], py '', '', [34], py ''Option D'', [34], py ''],'', [10],
        py ''    '', [34], py ''answer'', [34], py '': 0,'', [10], py ''    '', [34],
        py ''explanation'', [34], py '': '', [34], py ''Brief explanation of why this is correct'',
        [34], [10], py ''  }'', [10], py '']'', [10], [10], py ''The '', [34], py ''answer'', [34],
        py '' field must be the zero-based index (0-3) of the correct option.'', [10],
        py ''Return ONLY the JSON array, no markdown, no code blocks, no additional text.'']"

definition retry_instruction :: pystr where
  "retry_instruction =
     [10, 10] @ py ''IMPORTANT: Return ONLY valid JSON array, nothing else.''"

text \<open>
  One entry per call of the generation client: the chunk it was made for, whether it is
  the call of line 263 or the retry of line 277, the prompt sent and what came back.
\<close>

record call =
  chunk_idx :: nat
  is_retry :: bool
  prompt :: pystr
  outcome :: "error + json"

text \<open>The variables of a run: the world, the calls made so far and \<^verbatim>\<open>all_mcqs\<close>.\<close>

record 'w gen_state =
  world :: 'w
  calls :: "call list"
  all_mcqs :: "MCQ list"

text \<open>
  \<^verbatim>\<open>for mcq_dict in mcq_dicts\<close> over a decoded value: a list gives its elements, a dict its
  keys, a string its characters, and anything else raises \<^verbatim>\<open>TypeError\<close>.
\<close>

definition py_iter :: "json \<Rightarrow> error + json list" where
  "py_iter v =
     (case v of
        JArray xs \<Rightarrow> Inr xs
      | JObject d \<Rightarrow> Inr (map (\<lambda>kv. JString (fst kv)) d)
      | JString s \<Rightarrow> Inr (map (\<lambda>c. JString [c]) s)
      | _ \<Rightarrow> Inl TypeError)"

text \<open>The loop that validates the candidates and appends the accepted ones.\<close>

fun add_valid :: "(json \<Rightarrow> pystr option) \<Rightarrow> int \<Rightarrow> json list \<Rightarrow> MCQ list \<Rightarrow> MCQ list" where
  "add_valid coerce n_questions [] all = all"
| "add_valid coerce n_questions (mcq_dict # rest) all =
     (case validate_mcq coerce mcq_dict of
        Some mcq \<Rightarrow>
          (if int (length all) < n_questions
           then add_valid coerce n_questions rest (all @ [mcq])
           else add_valid coerce n_questions rest all)
      | None \<Rightarrow> add_valid coerce n_questions rest all)"

text \<open>
  Call the client, parse, validate and append: lines 263 to 272, and again lines 277 to
  282 for the retry. An exception ends the run: \<open>Some\<close> of it is returned with the state
  reached. \<^verbatim>\<open>json.loads\<close> raises \<^verbatim>\<open>TypeError\<close> when the response is not a string, and an
  exception that leaves the parser leaves the run.
\<close>

definition ask ::
  "('w \<Rightarrow> pystr \<Rightarrow> post_result \<times> 'w) \<Rightarrow> (pystr \<Rightarrow> loaded) \<Rightarrow> (json \<Rightarrow> pystr option) \<Rightarrow>
   int \<Rightarrow> nat \<Rightarrow> bool \<Rightarrow> pystr \<Rightarrow> 'w gen_state \<Rightarrow> error option \<times> 'w gen_state" where
  "ask post loads coerce n_questions idx retry p st =
     (case call_ollama_generate post (world st) p of
        (r, w') \<Rightarrow>
          (let st1 = st\<lparr>world := w',
                         calls := calls st @
                           [\<lparr>chunk_idx = idx, is_retry = retry, prompt = p, outcome = r\<rparr>]\<rparr>
           in case r of
                Inl e \<Rightarrow> (Some e, st1)
              | Inr (JString response) \<Rightarrow>
                  (case extract_json_from_response loads response of
                     Inl e \<Rightarrow> (Some e, st1)
                   | Inr data \<Rightarrow>
                       (case py_iter data of
                          Inl e \<Rightarrow> (Some e, st1)
                        | Inr mcq_dicts \<Rightarrow>
                            (None,
                             st1\<lparr>all_mcqs :=
                                   add_valid coerce n_questions mcq_dicts (all_mcqs st1)\<rparr>)))
              | Inr _ \<Rightarrow> (Some TypeError, st1)))"

text \<open>The body of the loop over the chunks, after the \<^verbatim>\<open>break\<close> test.\<close>

definition process_chunk ::
  "('w \<Rightarrow> pystr \<Rightarrow> post_result \<times> 'w) \<Rightarrow> (pystr \<Rightarrow> loaded) \<Rightarrow> (json \<Rightarrow> pystr option) \<Rightarrow>
   int \<Rightarrow> pystr \<Rightarrow> int \<Rightarrow> nat \<Rightarrow> pystr \<Rightarrow> 'w gen_state \<Rightarrow> error option \<times> 'w gen_state" where
  "process_chunk post loads coerce n_questions difficulty questions_per_chunk idx chunk st =
     (let remaining = n_questions - int (length (all_mcqs st));
          chunk_questions = min remaining questions_per_chunk;
          p = format_prompt chunk_questions difficulty (take 3000 chunk)
      in case ask post loads coerce n_questions idx False p st of
           (Some e, st1) \<Rightarrow> (Some e, st1)
         | (None, st1) \<Rightarrow>
             (if length (all_mcqs st1) = 0 \<and> idx = 0
              then ask post loads coerce n_questions idx True (p @ retry_instruction) st1
              else (None, st1)))"

fun chunks_loop ::
  "('w \<Rightarrow> pystr \<Rightarrow> post_result \<times> 'w) \<Rightarrow> (pystr \<Rightarrow> loaded) \<Rightarrow> (json \<Rightarrow> pystr option) \<Rightarrow>
   int \<Rightarrow> pystr \<Rightarrow> int \<Rightarrow> (nat \<times> pystr) list \<Rightarrow> 'w gen_state \<Rightarrow> error option \<times> 'w gen_state" where
  "chunks_loop post loads coerce n_questions difficulty qpc [] st = (None, st)"
| "chunks_loop post loads coerce n_questions difficulty qpc ((idx, chunk) # rest) st =
     (if n_questions - int (length (all_mcqs st)) \<le> 0 then (None, st)
      else
        (case process_chunk post loads coerce n_questions difficulty qpc idx chunk st of
           (Some e, st1) \<Rightarrow> (Some e, st1)
         | (None, st1) \<Rightarrow> chunks_loop post loads coerce n_questions difficulty qpc rest st1))"

text \<open>
  \<^verbatim>\<open>generate_mcqs_from_text(text, n_questions, difficulty)\<close>, started in the world \<open>w\<close>. The
  result is the exception raised or the list returned, together with the calls made and
  the world left behind. \<^verbatim>\<open>len(chunks)\<close> is never zero, so the division is defined.
\<close>

definition generate_mcqs_from_text ::
  "('w \<Rightarrow> pystr \<Rightarrow> post_result \<times> 'w) \<Rightarrow> (pystr \<Rightarrow> loaded) \<Rightarrow> (json \<Rightarrow> pystr option) \<Rightarrow>
   'w \<Rightarrow> pystr \<Rightarrow> int \<Rightarrow> pystr \<Rightarrow> (error + MCQ list) \<times> call list \<times> 'w" where
  "generate_mcqs_from_text post loads coerce w text n_questions difficulty =
     (let chunks = chunk_text text MAX_CHUNK_SIZE;
          questions_per_chunk =
            min MAX_QUESTIONS_PER_CHUNK (max 1 (n_questions div int (length chunks)))
      in case chunks_loop post loads coerce n_questions difficulty questions_per_chunk
                (enumerate 0 chunks) \<lparr>world = w, calls = [], all_mcqs = []\<rparr> of
           (Some e, st) \<Rightarrow> (Inl e, calls st, world st)
         | (None, st) \<Rightarrow> (Inr (all_mcqs st), calls st, world st))"

text \<open>
  The handler of \<^verbatim>\<open>POST /generate_mcq\<close>: the three checks of the request, the generation,
  and status 500 when the list is empty. \<^verbatim>\<open>text.strip()\<close> is empty when every character
  is whitespace.
\<close>

definition generate_mcq ::
  "('w \<Rightarrow> pystr \<Rightarrow> post_result \<times> 'w) \<Rightarrow> (pystr \<Rightarrow> loaded) \<Rightarrow> (json \<Rightarrow> pystr option) \<Rightarrow>
   'w \<Rightarrow> pystr \<Rightarrow> int \<Rightarrow> pystr \<Rightarrow> (error + MCQ list) \<times> call list \<times> 'w" where
  "generate_mcq post loads coerce w text n_questions difficulty =
     (if list_all isspace text then (Inl (HTTPException 400 EmptyText), [], w)
      else if n_questions < 1 \<or> n_questions > 20 then (Inl (HTTPException 400 BadCount), [], w)
      else if difficulty \<notin> set [py ''easy'', py ''medium'', py ''hard'']
      then (Inl (HTTPException 400 BadDifficulty), [], w)
      else
        (case generate_mcqs_from_text post loads coerce w text n_questions difficulty of
           (Inr mcqs, cs, w') \<Rightarrow>
             (if mcqs = [] then (Inl (HTTPException 500 NoValidMCQs), cs, w')
              else (Inr mcqs, cs, w'))
         | (Inl e, cs, w') \<Rightarrow> (Inl e, cs, w')))"

text \<open>
  Two properties of a run's outcome and its list of calls: every call was answered by
  the client; or the run ended in an exception which is the failure of the last call,
  every call before it having been answered.
\<close>

definition all_answered :: "call list \<Rightarrow> bool" where
  "all_answered cs = list_all (\<lambda>c. \<not> isl (outcome c)) cs"

definition failed_last :: "error option \<Rightarrow> call list \<Rightarrow> bool" where
  "failed_last r cs \<longleftrightarrow>
     cs \<noteq> [] \<and> all_answered (butlast cs) \<and>
     (case r of Some e \<Rightarrow> outcome (last cs) = Inl e | None \<Rightarrow> False)"

text \<open>
  A service that answers from a fixed script, one entry per call, and refuses the
  connection once the script is used up. Its world is the rest of the script.
\<close>

fun scripted :: "post_result list \<Rightarrow> pystr \<Rightarrow> post_result \<times> post_result list" where
  "scripted [] p = (ConnectionError, [])"
| "scripted (r # rs) p = (r, rs)"

definition reply :: "pystr \<Rightarrow> post_result" where
  "reply s = Response 200 (Some (JObject [(py ''response'', JString s)]))"

text \<open>
  Sample data for running the program: the JSON text of a record with a given question,
  the value it decodes to, and a decoder that knows the texts of a table and raises
  \<^verbatim>\<open>JSONDecodeError\<close> on every other text. On the texts of \<open>decode_table\<close> and of
  \<open>parser_table\<close> it agrees with \<^verbatim>\<open>json.loads\<close>. \<open>deep_loads\<close> is a decoder that meets two hundred
  thousand opening brackets, on which \<^verbatim>\<open>json.loads\<close> raises \<^verbatim>\<open>RecursionError\<close>.
\<close>

definition quoted :: "pystr \<Rightarrow> pystr" where
  "quoted s = [34] @ s @ [34]"

definition record_text :: "pystr \<Rightarrow> pystr" where
  "record_text q =
     py ''{'' @ quoted (py ''question'') @ py '': '' @ quoted q @ py '', '' @
     quoted (py ''options'') @ py '': ['' @ quoted (py ''a'') @ py '', '' @ quoted (py ''b'') @
     py '', '' @ quoted (py ''c'') @ py '', '' @ quoted (py ''d'') @ py ''], '' @
     quoted (py ''answer'') @ py '': 0}''"

definition record_value :: "pystr \<Rightarrow> json" where
  "record_value q =
     JObject [(py ''question'', JString q),
              (py ''options'', JArray [JString (py ''a''), JString (py ''b''), JString (py ''c''),
                                      JString (py ''d'')]),
              (py ''answer'', JInt 0)]"

definition decode_table :: "(pystr \<times> json) list" where
  "decode_table =
     [(py ''[]'', JArray []),
      (py ''['' @ record_text (py ''Q'') @ py '']'', JArray [record_value (py ''Q'')]),
      (py ''['' @ record_text [] @ py '']'', JArray [record_value []]),
      (py ''['' @ record_text (py ''Q'') @ py '', '' @ record_text (py ''R'') @ py '']'',
       JArray [record_value (py ''Q''), record_value (py ''R'')])]"

definition table_loads :: "(pystr \<times> json) list \<Rightarrow> pystr \<Rightarrow> loaded" where
  "table_loads table s = (case map_of table s of Some v \<Rightarrow> Loaded v | None \<Rightarrow> JSONDecodeError)"

definition sample_loads :: "pystr \<Rightarrow> loaded" where
  "sample_loads = table_loads decode_table"

definition parser_table :: "(pystr \<times> json) list" where
  "parser_table =
     [(py ''[{'' @ quoted (py ''a'') @ py '':1}]'', JArray [JObject [(py ''a'', JInt 1)]]),
      (py ''[{'' @ quoted (py ''x'') @ py '':1},{'' @ quoted (py ''y'') @ py '':2}]'',
       JArray [JObject [(py ''x'', JInt 1)], JObject [(py ''y'', JInt 2)]]),
      (py ''{'' @ quoted (py ''mcqs'') @ py '': [1]}'', JObject [(py ''mcqs'', JArray [JInt 1])]),
      (py ''[1]'', JArray [JInt 1])]"

definition deep_text :: pystr where
  "deep_text = replicate 200000 91"

definition deep_loads :: "pystr \<Rightarrow> loaded" where
  "deep_loads s = (if s = deep_text then Raises RecursionError else JSONDecodeError)"

section \<open>Properties of splitting, joining and grouping\<close>

lemma split_from_is_word:
  "\<forall>c\<in>set w. \<not> isspace c \<Longrightarrow> x \<in> set (split_from w s) \<Longrightarrow> is_word x"
proof (induction s arbitrary: w)
  case Nil
  then show ?case by (auto simp: is_word_def split: if_splits)
next
  case (Cons c cs)
  show ?case
  proof (cases "isspace c")
    case True
    with Cons.prems(2) have "(w \<noteq> [] \<and> x = w) \<or> x \<in> set (split_from [] cs)"
      by (auto split: if_splits)
    then show ?thesis
    proof
      assume "w \<noteq> [] \<and> x = w"
      with Cons.prems(1) show ?thesis by (simp add: is_word_def)
    next
      assume "x \<in> set (split_from [] cs)"
      then show ?thesis by (rule Cons.IH [rotated]) simp
    qed
  next
    case False
    with Cons.prems(2) have "x \<in> set (split_from (w @ [c]) cs)" by simp
    then show ?thesis by (rule Cons.IH [rotated]) (use False Cons.prems(1) in auto)
  qed
qed

lemma str_split_is_word: "x \<in> set (str_split s) \<Longrightarrow> is_word x"
  unfolding str_split_def by (rule split_from_is_word [of "[]"]) auto

lemma split_from_append:
  "\<forall>c\<in>set u. \<not> isspace c \<Longrightarrow> split_from w (u @ s) = split_from (w @ u) s"
  by (induction u arbitrary: w) auto

lemma isspace_32: "isspace 32"
  by (simp add: isspace_def)

lemma split_from_join:
  "\<forall>w\<in>set ws. is_word w \<Longrightarrow> split_from [] (str_join space ws) = ws"
proof (induction space ws rule: str_join.induct)
  case 1
  then show ?case by simp
next
  case (2 x)
  then have "split_from [] (x @ []) = split_from ([] @ x) []"
    by (intro split_from_append) (simp add: is_word_def)
  with 2 show ?case by (simp add: is_word_def)
next
  case (3 x y ys)
  then have "split_from [] (x @ (space @ str_join space (y # ys)))
      = split_from ([] @ x) (space @ str_join space (y # ys))"
    by (intro split_from_append) (simp add: is_word_def)
  with 3 show ?case by (simp add: is_word_def space_def isspace_32)
qed

lemma str_split_join: "\<forall>w\<in>set ws. is_word w \<Longrightarrow> str_split (str_join space ws) = ws"
  by (simp add: str_split_def split_from_join)

lemma chunk_loop_groups:
  "chunk_loop m ws chunks cur sz = chunks @ map (str_join space) (chunk_groups m ws cur sz)"
  by (induction ws arbitrary: chunks cur sz) (auto simp: Let_def)

lemma concat_chunk_groups: "concat (chunk_groups m ws cur sz) = cur @ ws"
  by (induction ws arbitrary: cur sz) (auto simp: Let_def)

lemma chunk_groups_no_empty: "g \<in> set (chunk_groups m ws cur sz) \<Longrightarrow> g \<noteq> []"
  by (induction ws arbitrary: cur sz) (auto simp: Let_def split: if_splits)

lemma chunk_groups_not_Nil: "cur @ ws \<noteq> [] \<Longrightarrow> chunk_groups m ws cur sz \<noteq> []"
  by (induction ws arbitrary: cur sz) (auto simp: Let_def)

lemma str_join_append:
  "xs \<noteq> [] \<Longrightarrow> ys \<noteq> [] \<Longrightarrow> str_join sep (xs @ ys) = str_join sep xs @ sep @ str_join sep ys"
  by (induction sep xs rule: str_join.induct) (auto simp: neq_Nil_conv)

lemma str_join_concat:
  "\<forall>g\<in>set gs. g \<noteq> [] \<Longrightarrow> str_join sep (map (str_join sep) gs) = str_join sep (concat gs)"
proof (induction gs)
  case Nil
  then show ?case by simp
next
  case (Cons g gs)
  show ?case
  proof (cases gs)
    case Nil
    then show ?thesis by simp
  next
    case (Cons h hs)
    with Cons.prems have ne: "g \<noteq> []" "concat gs \<noteq> []" by auto
    from Cons Cons.IH Cons.prems
    have "str_join sep (map (str_join sep) (g # gs)) = str_join sep g @ sep @ str_join sep (concat gs)"
      by simp
    also have "\<dots> = str_join sep (g @ concat gs)"
      using ne by (simp add: str_join_append)
    finally show ?thesis by simp
  qed
qed

lemma chunk_text_groups:
  "str_split text \<noteq> [] \<Longrightarrow>
   chunk_text text m = map (str_join space) (chunk_groups m (str_split text) [] 0)"
  by (simp add: chunk_text_def chunk_loop_groups chunk_groups_not_Nil)

lemma chunk_text_no_words: "str_split text = [] \<Longrightarrow> chunk_text text m = [text]"
  by (simp add: chunk_text_def)

lemma chunk_text_not_Nil: "chunk_text text m \<noteq> []"
  by (simp add: chunk_text_def Let_def)

lemma length_str_join: "g \<noteq> [] \<Longrightarrow> int (length (str_join space g)) = size_of g - 1"
  by (induction space g rule: str_join.induct) (auto simp: size_of_def space_def)

lemma size_of_nonneg: "0 \<le> size_of g"
  by (induction g) (auto simp: size_of_def)

lemma size_of_member: "w \<in> set g \<Longrightarrow> int (length w) + 1 \<le> size_of g"
  using size_of_nonneg by (induction g) (auto simp: size_of_def)

lemma size_of_snoc: "size_of (g @ [w]) = size_of g + (int (length w) + 1)"
  by (simp add: size_of_def)

lemma chunk_groups_bound:
  "sz = size_of cur \<Longrightarrow> size_of cur \<le> m * 4 \<or> length cur \<le> 1 \<Longrightarrow>
   g \<in> set (chunk_groups m ws cur sz) \<Longrightarrow> size_of g \<le> m * 4 \<or> length g = 1"
proof (induction ws arbitrary: cur sz)
  case Nil
  then show ?case by (cases cur) (auto split: if_splits)
next
  case (Cons w ws)
  show ?case
  proof (cases "sz + (int (length w) + 1) > m * 4 \<and> cur \<noteq> []")
    case True
    with Cons.prems(3) have "g = cur \<or> g \<in> set (chunk_groups m ws [w] (int (length w) + 1))"
      by (auto simp: Let_def)
    then show ?thesis
    proof
      assume "g = cur"
      with True Cons.prems(2) show ?thesis by (cases cur) auto
    next
      assume "g \<in> set (chunk_groups m ws [w] (int (length w) + 1))"
      then show ?thesis by (rule Cons.IH [rotated 2]) (auto simp: size_of_def)
    qed
  next
    case False
    with Cons.prems(3) have "g \<in> set (chunk_groups m ws (cur @ [w]) (sz + (int (length w) + 1)))"
      by (auto simp: Let_def)
    then show ?thesis
    proof (rule Cons.IH [rotated 2])
      show "sz + (int (length w) + 1) = size_of (cur @ [w])"
        using Cons.prems(1) by (simp add: size_of_snoc)
      show "size_of (cur @ [w]) \<le> m * 4 \<or> length (cur @ [w]) \<le> 1"
        using False Cons.prems(1) by (auto simp: size_of_snoc)
    qed
  qed
qed

lemma chunk_groups_oversized:
  "sz = size_of cur \<Longrightarrow> \<forall>x\<in>set cur. int (length x) > m * 4 \<longrightarrow> cur = [x] \<Longrightarrow>
   g \<in> set (chunk_groups m ws cur sz) \<Longrightarrow> x \<in> set g \<Longrightarrow> int (length x) > m * 4 \<Longrightarrow> g = [x]"
proof (induction ws arbitrary: cur sz)
  case Nil
  then show ?case by (auto split: if_splits)
next
  case (Cons w ws)
  show ?case
  proof (cases "sz + (int (length w) + 1) > m * 4 \<and> cur \<noteq> []")
    case True
    with Cons.prems(3) have "g = cur \<or> g \<in> set (chunk_groups m ws [w] (int (length w) + 1))"
      by (auto simp: Let_def)
    then show ?thesis
    proof
      assume "g = cur"
      with Cons.prems show ?thesis by auto
    next
      assume "g \<in> set (chunk_groups m ws [w] (int (length w) + 1))"
      then show ?thesis
        by (rule Cons.IH [rotated 2]) (use Cons.prems in \<open>auto simp: size_of_def\<close>)
    qed
  next
    case False
    with Cons.prems(3) have *: "g \<in> set (chunk_groups m ws (cur @ [w]) (sz + (int (length w) + 1)))"
      by (auto simp: Let_def)
    show ?thesis
    proof (rule Cons.IH [OF _ _ * Cons.prems(4,5)])
      show "sz + (int (length w) + 1) = size_of (cur @ [w])"
        using Cons.prems(1) by (simp add: size_of_snoc)
      show "\<forall>x\<in>set (cur @ [w]). m * 4 < int (length x) \<longrightarrow> cur @ [w] = [x]"
      proof (cases "cur = []")
        case True
        then show ?thesis by simp
      next
        case False
        with \<open>\<not> (sz + (int (length w) + 1) > m * 4 \<and> cur \<noteq> [])\<close>
        have le: "size_of cur + (int (length w) + 1) \<le> m * 4"
          using Cons.prems(1) by simp
        have "int (length y) \<le> m * 4" if "y \<in> set (cur @ [w])" for y
          using that le size_of_member [of y cur] size_of_nonneg [of cur] by auto
        then show ?thesis by fastforce
      qed
    qed
  qed
qed

lemma str_join_member_sublist: "x \<in> set xs \<Longrightarrow> sublist x (str_join sep xs)"
proof (induction sep xs rule: str_join.induct)
  case (3 sep a b bs)
  show ?case
  proof (cases "x = a")
    case True
    then show ?thesis by simp
  next
    case False
    with 3 have "sublist x (str_join sep (b # bs))" by auto
    then obtain ps ss where "str_join sep (b # bs) = ps @ x @ ss"
      by (auto simp: sublist_def)
    then have "str_join sep (a # b # bs) = (a @ sep @ ps) @ x @ ss" by simp
    then show ?thesis unfolding sublist_def by blast
  qed
qed auto

section \<open>The chunker: claims\<close>

lemma chunk_groups_words:
  assumes "g \<in> set (chunk_groups m (str_split text) [] 0)" "w \<in> set g"
  shows "is_word w"
proof -
  from assms have "w \<in> set (concat (chunk_groups m (str_split text) [] 0))" by auto
  then show ?thesis by (simp add: concat_chunk_groups str_split_is_word)
qed

lemma chunk_groups_split_join:
  assumes "g \<in> set (chunk_groups m (str_split text) [] 0)"
  shows "str_split (str_join space g) = g"
  using assms by (intro str_split_join) (auto intro: chunk_groups_words)

text \<open>
  Claim C2. For every text and every size budget, \<open>chunk_text\<close> returns at least one chunk;
  the chunks joined with single spaces split into exactly the words of the text, and are
  the words of the text joined with single spaces when there is a word; a text without
  words gives the one-element list holding the text itself.
\<close>

theorem chunk_text_reproduces_words:
  "chunk_text text max_size \<noteq> [] \<and>
   str_split (str_join space (chunk_text text max_size)) = str_split text \<and>
   (str_split text \<noteq> [] \<longrightarrow>
      str_join space (chunk_text text max_size) = str_join space (str_split text)) \<and>
   (str_split text = [] \<longrightarrow> chunk_text text max_size = [text])"
proof (cases "str_split text = []")
  case True
  then show ?thesis by (simp add: chunk_text_no_words)
next
  case False
  have "str_join space (chunk_text text max_size)
      = str_join space (concat (chunk_groups max_size (str_split text) [] 0))"
    using False by (simp add: chunk_text_groups str_join_concat chunk_groups_no_empty)
  then have eq: "str_join space (chunk_text text max_size) = str_join space (str_split text)"
    by (simp add: concat_chunk_groups)
  have "str_split (str_join space (str_split text)) = str_split text"
    by (rule str_split_join) (simp add: str_split_is_word)
  with eq False show ?thesis by (simp add: chunk_text_not_Nil)
qed

theorem chunk_text_reproduces_words_witness:
  "str_split (py ''a b  cde'') \<noteq> [] \<and>
   chunk_text (py ''a b  cde'') 1 = [py ''a b'', py ''cde''] \<and>
   str_join space (chunk_text (py ''a b  cde'') 1) = str_join space (str_split (py ''a b  cde'')) \<and>
   str_split [32, 10] = [] \<and> chunk_text [32, 10] 1 = [[32, 10]]"
  using chunk_text_reproduces_words [of "py ''a b  cde''" 1]
    chunk_text_reproduces_words [of "[32, 10]" 1]
  by (simp add: py_def str_split_def isspace_def chunk_text_def space_def)

text \<open>
  Claim C7, amended. For a text that has at least one word and every size budget: the
  words of the chunks, in order, are the words of the text; every chunk is its own words
  joined with single spaces, so no word is cut or truncated; every chunk is at most
  \<open>max_size * 4\<close> characters long or is a single word; a chunk holding a word longer than
  the budget is that word alone, and every such word of the text is a chunk.
\<close>

theorem chunk_text_budget:
  assumes "str_split text \<noteq> []"
  shows "concat (map str_split (chunk_text text max_size)) = str_split text \<and>
    (\<forall>c\<in>set (chunk_text text max_size).
        str_join space (str_split c) = c \<and>
        (int (length c) \<le> max_size * 4 \<or> length (str_split c) = 1) \<and>
        (\<forall>w\<in>set (str_split c). max_size * 4 < int (length w) \<longrightarrow> c = w)) \<and>
    (\<forall>w\<in>set (str_split text). max_size * 4 < int (length w) \<longrightarrow> w \<in> set (chunk_text text max_size))"
proof -
  let ?gs = "chunk_groups max_size (str_split text) [] 0"
  have ct: "chunk_text text max_size = map (str_join space) ?gs"
    using assms by (rule chunk_text_groups)
  have sj: "str_split (str_join space g) = g" if "g \<in> set ?gs" for g
    using that by (rule chunk_groups_split_join)
  have "map str_split (chunk_text text max_size) = ?gs"
    unfolding ct by (simp add: sj map_idI)
  then have A: "concat (map str_split (chunk_text text max_size)) = str_split text"
    by (simp add: concat_chunk_groups)
  have B: "str_join space (str_split c) = c \<and>
        (int (length c) \<le> max_size * 4 \<or> length (str_split c) = 1) \<and>
        (\<forall>w\<in>set (str_split c). max_size * 4 < int (length w) \<longrightarrow> c = w)"
    if "c \<in> set (chunk_text text max_size)" for c
  proof -
    from that ct obtain g where g: "g \<in> set ?gs" "c = str_join space g" by auto
    have ne: "g \<noteq> []" using g(1) by (rule chunk_groups_no_empty)
    have "size_of g \<le> max_size * 4 \<or> length g = 1"
      by (rule chunk_groups_bound [OF _ _ g(1)]) (simp_all add: size_of_def)
    then have 1: "int (length c) \<le> max_size * 4 \<or> length (str_split c) = 1"
      using g ne by (auto simp: sj length_str_join)
    have 2: "c = w" if "w \<in> set (str_split c)" "max_size * 4 < int (length w)" for w
    proof -
      from that g have wg: "w \<in> set g" by (simp add: sj)
      have "g = [w]"
        by (rule chunk_groups_oversized [OF _ _ g(1) wg that(2)]) (simp_all add: size_of_def)
      with g show ?thesis by simp
    qed
    from g 1 2 show ?thesis by (auto simp: sj)
  qed
  have C: "w \<in> set (chunk_text text max_size)"
    if "w \<in> set (str_split text)" "max_size * 4 < int (length w)" for w
  proof -
    from that(1) A have "w \<in> set (concat (map str_split (chunk_text text max_size)))"
      by simp
    then obtain c where c: "c \<in> set (chunk_text text max_size)" "w \<in> set (str_split c)"
      by auto
    with B that(2) have "c = w" by blast
    with c show ?thesis by simp
  qed
  from A B C show ?thesis by blast
qed

theorem chunk_text_budget_witness:
  "str_split (py ''a b  cdefg'') \<noteq> [] \<and>
   chunk_text (py ''a b  cdefg'') 1 = [py ''a b'', py ''cdefg''] \<and>
   concat (map str_split (chunk_text (py ''a b  cdefg'') 1)) = str_split (py ''a b  cdefg'') \<and>
   py ''cdefg'' \<in> set (str_split (py ''a b  cdefg'')) \<and> 1 * 4 < int (length (py ''cdefg''))"
  using chunk_text_budget [of "py ''a b  cdefg''" 1]
  by (simp add: py_def str_split_def isspace_def chunk_text_def space_def)

text \<open>
  Claim C7 as stated fails on a text without words: five spaces with budget 1 come back
  as one chunk of five characters, which is longer than 4 and holds no word.
\<close>

theorem chunk_text_budget_counterexample:
  "chunk_text [32, 32, 32, 32, 32] 1 = [[32, 32, 32, 32, 32]] \<and>
   \<not> int (length [32, 32, 32, 32, 32 :: nat]) \<le> 1 * 4 \<and>
   length (str_split [32, 32, 32, 32, 32]) \<noteq> 1"
  by (simp add: str_split_def isspace_def chunk_text_def)

text \<open>
  Claim C9, amended. Every chunk is a contiguous part of the words of the text joined
  with single spaces; when the text has no word, the chunk is the text itself.
\<close>

theorem chunk_text_substring:
  assumes "c \<in> set (chunk_text text max_size)"
  shows "(str_split text = [] \<longrightarrow> c = text) \<and>
         (str_split text \<noteq> [] \<longrightarrow> sublist c (str_join space (str_split text)))"
proof (cases "str_split text = []")
  case True
  with assms show ?thesis by (simp add: chunk_text_no_words)
next
  case False
  from assms have "sublist c (str_join space (chunk_text text max_size))"
    by (rule str_join_member_sublist)
  moreover have "str_join space (chunk_text text max_size) = str_join space (str_split text)"
    using False
    by (simp add: chunk_text_groups str_join_concat chunk_groups_no_empty concat_chunk_groups)
  ultimately show ?thesis using False by simp
qed

theorem chunk_text_substring_witness:
  "py ''a b'' \<in> set (chunk_text (py ''a b  cde'') 1) \<and> str_split (py ''a b  cde'') \<noteq> [] \<and>
   sublist (py ''a b'') (str_join space (str_split (py ''a b  cde'')))"
  using chunk_text_substring [of "py ''a b''" "py ''a b  cde''" 1]
  by (simp add: py_def str_split_def isspace_def chunk_text_def space_def)

text \<open>
  Claim C9 as stated fails when two words of one chunk are separated by more than a
  single space: the chunk of \<^verbatim>\<open>a  b\<close> is \<^verbatim>\<open>a b\<close>, which does not occur in the text.
\<close>

theorem chunk_text_substring_counterexample:
  "chunk_text (py ''a  b'') MAX_CHUNK_SIZE = [py ''a b''] \<and>
   \<not> sublist (py ''a b'') (py ''a  b'')"
  by (simp add: py_def str_split_def isspace_def chunk_text_def space_def MAX_CHUNK_SIZE_def
      sublist_Cons_right)

section \<open>The validator and the parser: claims\<close>

lemma fence_body_Some:
  "fence_body acc s = Some g \<Longrightarrow> \<exists>u v. g = acc @ u \<and> s = u @ v"
proof (induction s arbitrary: acc)
  case Nil
  then show ?case by simp
next
  case (Cons c cs)
  show ?case
  proof (cases "c = 93 \<and> prefix fence (dropWhile isspace cs)")
    case True
    with Cons.prems have "g = acc @ [c]" by auto
    then have "g = acc @ [c] \<and> c # cs = [c] @ cs" by simp
    then show ?thesis by blast
  next
    case False
    with Cons.prems have "fence_body (acc @ [c]) cs = Some g" by auto
    from Cons.IH [OF this] obtain u v where "g = (acc @ [c]) @ u" "cs = u @ v" by blast
    then have "g = acc @ (c # u) \<and> c # cs = (c # u) @ v" by simp
    then show ?thesis by blast
  qed
qed

lemma prefix_of_suffix_sublist: "prefix g t \<Longrightarrow> suffix t s \<Longrightarrow> sublist g s"
  unfolding sublist_altdef' by blast

lemma fence_at_Some:
  assumes "fence_at s = Some g"
  shows "(\<exists>t. g = 91 # t) \<and> sublist g s"
proof -
  define s1 where "s1 = drop 3 s"
  define s2 where "s2 = (if prefix (py ''json'') s1 then drop 4 s1 else s1)"
  from assms have rest: "(case dropWhile isspace s2 of [] \<Rightarrow> None
      | c # cs \<Rightarrow> if c = 91 then fence_body [c] cs else None) = Some g"
    by (simp add: fence_at_def s1_def s2_def Let_def split: if_splits)
  then obtain cs where d: "dropWhile isspace s2 = 91 # cs" and fb: "fence_body [91] cs = Some g"
    by (auto split: list.splits if_splits)
  from fence_body_Some [OF fb] obtain u v where uv: "g = [91] @ u" "cs = u @ v" by blast
  then have "91 # cs = g @ v" by simp
  then have pg: "prefix g (dropWhile isspace s2)" unfolding d by (simp add: prefix_def)
  have "suffix (dropWhile isspace s2) s2" by (rule suffix_dropWhile)
  also have "suffix s2 s1" by (simp add: s2_def suffix_drop)
  also have "suffix s1 s" by (simp add: s1_def suffix_drop)
  finally have "suffix (dropWhile isspace s2) s" .
  with pg have "sublist g s" by (rule prefix_of_suffix_sublist)
  with uv show ?thesis by simp
qed

lemma search_fence_Some:
  "search_fence s = Some g \<Longrightarrow> (\<exists>t. g = 91 # t) \<and> sublist g s"
proof (induction s)
  case Nil
  then have "fence_at [] = Some g" by simp
  then show ?case by (rule fence_at_Some)
next
  case (Cons c cs)
  show ?case
  proof (cases "fence_at (c # cs)")
    case None
    with Cons have "(\<exists>t. g = 91 # t) \<and> sublist g cs" by simp
    then show ?thesis by (auto simp: sublist_Cons_right)
  next
    case (Some h)
    with Cons.prems have "fence_at (c # cs) = Some g" by simp
    then show ?thesis by (rule fence_at_Some)
  qed
qed

lemma search_bracket_Some:
  assumes "search_bracket s = Some g"
  shows "(\<exists>t. g = 91 # t) \<and> sublist g s"
proof -
  define t where "t = dropWhile (\<lambda>c. c \<noteq> 91) s"
  from assms have in93: "93 \<in> set t" and g: "g = rev (dropWhile (\<lambda>c. c \<noteq> 93) (rev t))"
    by (auto simp: search_bracket_def Let_def t_def split: if_splits)
  have "suffix (dropWhile (\<lambda>c. c \<noteq> 93) (rev t)) (rev t)" by (rule suffix_dropWhile)
  then have pg: "prefix g t" unfolding g by (simp add: suffix_to_prefix)
  have gne: "g \<noteq> []" unfolding g using in93 by (auto simp: dropWhile_eq_Nil_conv)
  from in93 have tne: "t \<noteq> []" by (cases t) simp_all
  have "hd t = 91" using hd_dropWhile [of "\<lambda>c. c \<noteq> 91" s] tne unfolding t_def by blast
  with pg gne tne have "hd g = 91" by (cases g; cases t) auto
  with gne have 1: "\<exists>u. g = 91 # u" by (cases g) auto
  have "suffix t s" unfolding t_def by (rule suffix_dropWhile)
  with pg have "sublist g s" by (rule prefix_of_suffix_sublist)
  with 1 show ?thesis by simp
qed

lemma those_map_Some: "those (map (\<lambda>x. Some (f x)) xs) = Some (map f xs)"
  by (induction xs) auto

lemma length_those: "those xs = Some ys \<Longrightarrow> length ys = length xs"
  by (induction xs arbitrary: ys) (auto split: option.splits)

lemma MCQ_new_shape:
  "MCQ_new coerce q os a e = Some m \<Longrightarrow>
   str_field coerce q = Some (question m) \<and>
   those (map (str_field coerce) os) = Some (options m) \<and> length (options m) = length os \<and>
   answer m = a \<and> optional_str_field coerce e = Some (explanation m)"
  by (auto simp: MCQ_new_def length_those split: option.splits)

lemma MCQ_new_strings:
  "e = JNull \<or> (\<exists>s. e = JString s) \<Longrightarrow>
   MCQ_new coerce (JString q) (map JString os) a e =
     Some \<lparr>question = q, options = os, answer = a,
           explanation = (case e of JString s \<Rightarrow> Some s | _ \<Rightarrow> None)\<rparr>"
  by (auto simp: MCQ_new_def str_field_def optional_str_field_def comp_def those_map_Some)

lemma validate_mcq_iff:
  "validate_mcq coerce v = Some m \<longleftrightarrow>
     (\<exists>d q os a.
        v = JObject d \<and>
        map_of d (py ''question'') = Some q \<and>
        map_of d (py ''options'') = Some (JArray os) \<and>
        map_of d (py ''answer'') = Some a \<and>
        length os = 4 \<and> as_int a = Some (answer m) \<and> 0 \<le> answer m \<and> answer m \<le> 3 \<and>
        MCQ_new coerce q os (answer m)
          (case map_of d (py ''explanation'') of Some e \<Rightarrow> e | None \<Rightarrow> JString []) = Some m)"
  (is "?L \<longleftrightarrow> ?R")
proof
  assume ?L
  then obtain d where v: "v = JObject d"
    by (cases v) (simp_all add: validate_mcq_def)
  from \<open>?L\<close> obtain q os a where
    k: "map_of d (py ''question'') = Some q" "map_of d (py ''options'') = Some (JArray os)"
       "map_of d (py ''answer'') = Some a"
    unfolding v validate_mcq_def
    by (simp split: if_splits option.splits json.splits)
  from \<open>?L\<close> have len: "length os = 4"
    unfolding v validate_mcq_def using k by (simp split: if_splits)
  from \<open>?L\<close> len obtain i where i: "as_int a = Some i" "0 \<le> i" "i \<le> 3"
    and new: "MCQ_new coerce q os i
          (case map_of d (py ''explanation'') of Some e \<Rightarrow> e | None \<Rightarrow> JString []) = Some m"
    unfolding v validate_mcq_def using k by (simp split: if_splits option.splits)
  from MCQ_new_shape [OF new] have "answer m = i" by simp
  with v k len i new show ?R by auto
next
  assume ?R
  then show ?L
    by (auto simp: validate_mcq_def)
qed

lemma validate_mcq_typed:
  assumes "map_of d (py ''question'') = Some (JString q)"
    and "map_of d (py ''options'') = Some (JArray (map JString os))"
    and "length os = 4"
    and "map_of d (py ''answer'') = Some a"
    and "as_int a = Some i" and "0 \<le> i" and "i \<le> 3"
    and "map_of d (py ''explanation'') = e"
    and "e = None \<or> e = Some JNull \<or> (\<exists>s. e = Some (JString s))"
  shows "validate_mcq coerce (JObject d) =
     Some \<lparr>question = q, options = os, answer = i,
           explanation = (case e of None \<Rightarrow> Some [] | Some (JString s) \<Rightarrow> Some s | Some _ \<Rightarrow> None)\<rparr>"
proof -
  let ?e = "case e of Some x \<Rightarrow> x | None \<Rightarrow> JString []"
  have "?e = JNull \<or> (\<exists>s. ?e = JString s)" using assms(9) by auto
  from MCQ_new_strings [OF this, of coerce q os i]
  have "MCQ_new coerce (JString q) (map JString os) i ?e =
     Some \<lparr>question = q, options = os, answer = i,
           explanation = (case e of None \<Rightarrow> Some [] | Some (JString s) \<Rightarrow> Some s | Some _ \<Rightarrow> None)\<rparr>"
    using assms(9) by auto
  then show ?thesis
    unfolding validate_mcq_iff using assms by simp
qed

text \<open>
  Claim C3, amended. \<open>validate_mcq\<close> returns an MCQ exactly when the candidate is a record
  with the keys \<^verbatim>\<open>question\<close>, \<^verbatim>\<open>options\<close> and \<^verbatim>\<open>answer\<close>, its options are a list of exactly
  four elements, its answer is an instance of \<^verbatim>\<open>int\<close> (an integer or a boolean) from 0 to
  3, and the question, every option and the explanation are values the declared field
  types of the MCQ model take; the explanation is the record's, or the empty string when
  the key is absent. This is so in particular when the question and the options are
  strings and the explanation is absent, null or a string. Everything else gives \<open>None\<close>;
  the function has no other outcome.
\<close>

theorem validate_mcq_accepts_exactly:
  "(validate_mcq coerce v = Some m \<longleftrightarrow>
     (\<exists>d q os a.
        v = JObject d \<and>
        map_of d (py ''question'') = Some q \<and>
        map_of d (py ''options'') = Some (JArray os) \<and>
        map_of d (py ''answer'') = Some a \<and>
        length os = 4 \<and> as_int a = Some (answer m) \<and> 0 \<le> answer m \<and> answer m \<le> 3 \<and>
        str_field coerce q = Some (question m) \<and>
        those (map (str_field coerce) os) = Some (options m) \<and>
        optional_str_field coerce
          (case map_of d (py ''explanation'') of Some e \<Rightarrow> e | None \<Rightarrow> JString []) =
            Some (explanation m))) \<and>
   (\<forall>d q os a i e.
      map_of d (py ''question'') = Some (JString q) \<and>
      map_of d (py ''options'') = Some (JArray (map JString os)) \<and> length os = 4 \<and>
      map_of d (py ''answer'') = Some a \<and> as_int a = Some i \<and> 0 \<le> i \<and> i \<le> 3 \<and>
      map_of d (py ''explanation'') = e \<and>
      (e = None \<or> e = Some JNull \<or> (\<exists>s. e = Some (JString s))) \<longrightarrow>
      validate_mcq coerce (JObject d) =
        Some \<lparr>question = q, options = os, answer = i,
              explanation =
                (case e of None \<Rightarrow> Some [] | Some (JString s) \<Rightarrow> Some s | Some _ \<Rightarrow> None)\<rparr>)"
proof (intro conjI allI impI)
  show "validate_mcq coerce v = Some m \<longleftrightarrow>
     (\<exists>d q os a.
        v = JObject d \<and>
        map_of d (py ''question'') = Some q \<and>
        map_of d (py ''options'') = Some (JArray os) \<and>
        map_of d (py ''answer'') = Some a \<and>
        length os = 4 \<and> as_int a = Some (answer m) \<and> 0 \<le> answer m \<and> answer m \<le> 3 \<and>
        str_field coerce q = Some (question m) \<and>
        those (map (str_field coerce) os) = Some (options m) \<and>
        optional_str_field coerce
          (case map_of d (py ''explanation'') of Some e \<Rightarrow> e | None \<Rightarrow> JString []) =
            Some (explanation m))" (is "?L \<longleftrightarrow> ?R")
  proof
    assume ?L
    then obtain d q os a where
      *: "v = JObject d" "map_of d (py ''question'') = Some q"
        "map_of d (py ''options'') = Some (JArray os)" "map_of d (py ''answer'') = Some a"
        "length os = 4" "as_int a = Some (answer m)" "0 \<le> answer m" "answer m \<le> 3"
      and new: "MCQ_new coerce q os (answer m)
          (case map_of d (py ''explanation'') of Some e \<Rightarrow> e | None \<Rightarrow> JString []) = Some m"
      unfolding validate_mcq_iff by blast
    from MCQ_new_shape [OF new] * show ?R by blast
  next
    assume ?R
    then obtain d q os a where
      *: "v = JObject d" "map_of d (py ''question'') = Some q"
        "map_of d (py ''options'') = Some (JArray os)" "map_of d (py ''answer'') = Some a"
        "length os = 4" "as_int a = Some (answer m)" "0 \<le> answer m" "answer m \<le> 3"
      and f: "str_field coerce q = Some (question m)"
        "those (map (str_field coerce) os) = Some (options m)"
        "optional_str_field coerce
          (case map_of d (py ''explanation'') of Some e \<Rightarrow> e | None \<Rightarrow> JString []) =
            Some (explanation m)"
      by blast
    from f have "MCQ_new coerce q os (answer m)
          (case map_of d (py ''explanation'') of Some e \<Rightarrow> e | None \<Rightarrow> JString []) = Some m"
      by (simp add: MCQ_new_def)
    with * show ?L unfolding validate_mcq_iff by blast
  qed
next
  fix d q os a i e
  assume "map_of d (py ''question'') = Some (JString q) \<and>
      map_of d (py ''options'') = Some (JArray (map JString os)) \<and> length os = 4 \<and>
      map_of d (py ''answer'') = Some a \<and> as_int a = Some i \<and> 0 \<le> i \<and> i \<le> 3 \<and>
      map_of d (py ''explanation'') = e \<and>
      (e = None \<or> e = Some JNull \<or> (\<exists>s. e = Some (JString s)))"
  then show "validate_mcq coerce (JObject d) =
        Some \<lparr>question = q, options = os, answer = i,
              explanation =
                (case e of None \<Rightarrow> Some [] | Some (JString s) \<Rightarrow> Some s | Some _ \<Rightarrow> None)\<rparr>"
    by (elim conjE) (rule validate_mcq_typed)
qed

theorem validate_mcq_accepts_exactly_witness:
  "map_of [(py ''question'', JString (py ''Q'')),
           (py ''options'', JArray (map JString [py ''a'', py ''b'', py ''c'', py ''d''])),
           (py ''answer'', JInt 2)] (py ''explanation'') = None \<and>
   as_int (JInt 2) = Some 2 \<and>
   validate_mcq strict
     (JObject [(py ''question'', JString (py ''Q'')),
               (py ''options'', JArray (map JString [py ''a'', py ''b'', py ''c'', py ''d''])),
               (py ''answer'', JInt 2)]) =
     Some \<lparr>question = py ''Q'', options = [py ''a'', py ''b'', py ''c'', py ''d''], answer = 2,
           explanation = Some []\<rparr> \<and>
   validate_mcq strict
     (JObject [(py ''question'', JString (py ''Q'')),
               (py ''options'', JArray (map JString [py ''a'', py ''b'', py ''c'', py ''d'']))]) = None \<and>
   validate_mcq strict
     (JObject [(py ''question'', JString (py ''Q'')),
               (py ''options'', JArray (map JString [py ''a'', py ''b'', py ''c''])),
               (py ''answer'', JInt 2)]) = None \<and>
   validate_mcq strict
     (JObject [(py ''question'', JString (py ''Q'')),
               (py ''options'', JArray (map JString [py ''a'', py ''b'', py ''c'', py ''d''])),
               (py ''answer'', JInt 4)]) = None"
  using validate_mcq_accepts_exactly
    [of strict
      "JObject [(py ''question'', JString (py ''Q'')),
               (py ''options'', JArray (map JString [py ''a'', py ''b'', py ''c'', py ''d''])),
               (py ''answer'', JInt 2)]"
      "\<lparr>question = py ''Q'', options = [py ''a'', py ''b'', py ''c'', py ''d''], answer = 2,
           explanation = Some []\<rparr>"]
  by (simp add: validate_mcq_def py_def as_int_def MCQ_new_def str_field_def
      optional_str_field_def strict_def)

text \<open>
  Claim C3 as stated fails in both directions. A record whose question is \<^verbatim>\<open>null\<close> has the
  three keys, four options and the answer 0, and is rejected, because the field
  \<^verbatim>\<open>question: str\<close> does not take \<^verbatim>\<open>None\<close>. A record whose answer is \<^verbatim>\<open>true\<close> is accepted
  although its answer is not an integer.
\<close>

theorem validate_mcq_accepts_exactly_counterexample:
  "spec_conditions
     (JObject [(py ''question'', JNull),
               (py ''options'', JArray (map JString [py ''a'', py ''b'', py ''c'', py ''d''])),
               (py ''answer'', JInt 0)]) \<and>
   validate_mcq strict
     (JObject [(py ''question'', JNull),
               (py ''options'', JArray (map JString [py ''a'', py ''b'', py ''c'', py ''d''])),
               (py ''answer'', JInt 0)]) = None \<and>
   \<not> spec_conditions
     (JObject [(py ''question'', JString (py ''Q'')),
               (py ''options'', JArray (map JString [py ''a'', py ''b'', py ''c'', py ''d''])),
               (py ''answer'', JBool True)]) \<and>
   validate_mcq strict
     (JObject [(py ''question'', JString (py ''Q'')),
               (py ''options'', JArray (map JString [py ''a'', py ''b'', py ''c'', py ''d''])),
               (py ''answer'', JBool True)]) =
     Some \<lparr>question = py ''Q'', options = [py ''a'', py ''b'', py ''c'', py ''d''], answer = 1,
           explanation = Some []\<rparr>"
  by (simp add: spec_conditions_def validate_mcq_def py_def as_int_def MCQ_new_def str_field_def
      optional_str_field_def strict_def)

text \<open>
  Claim C10. A record whose answer is the JSON boolean \<^verbatim>\<open>true\<close> or \<^verbatim>\<open>false\<close>, and which is
  otherwise well formed (a string question, four string options, an explanation that is
  absent, null or a string), is accepted, and the answer of the MCQ is 1 or 0
  respectively.
\<close>

theorem validate_mcq_boolean_answer:
  assumes "map_of d (py ''question'') = Some (JString q)"
    and "map_of d (py ''options'') = Some (JArray (map JString os))"
    and "length os = 4"
    and "map_of d (py ''answer'') = Some (JBool b)"
    and "map_of d (py ''explanation'') = None \<or> map_of d (py ''explanation'') = Some JNull \<or>
         (\<exists>s. map_of d (py ''explanation'') = Some (JString s))"
  shows "\<exists>m. validate_mcq coerce (JObject d) = Some m \<and> answer m = (if b then 1 else 0) \<and>
             question m = q \<and> options m = os"
proof -
  have "as_int (JBool b) = Some (if b then 1 else 0)" by (simp add: as_int_def)
  from validate_mcq_typed [OF assms(1-4) this _ _ refl assms(5), of coerce]
  show ?thesis by simp
qed

theorem validate_mcq_boolean_answer_witness:
  "map_of [(py ''question'', JString (py ''Q'')),
           (py ''options'', JArray (map JString [py ''a'', py ''b'', py ''c'', py ''d''])),
           (py ''answer'', JBool True)] (py ''answer'') = Some (JBool True) \<and>
   (\<exists>m. validate_mcq strict
          (JObject [(py ''question'', JString (py ''Q'')),
                    (py ''options'', JArray (map JString [py ''a'', py ''b'', py ''c'', py ''d''])),
                    (py ''answer'', JBool True)]) = Some m \<and> answer m = 1)"
  using validate_mcq_boolean_answer
    [of "[(py ''question'', JString (py ''Q'')),
           (py ''options'', JArray (map JString [py ''a'', py ''b'', py ''c'', py ''d''])),
           (py ''answer'', JBool True)]" "py ''Q''" "[py ''a'', py ''b'', py ''c'', py ''d'']" True strict]
  by (auto simp: py_def)

text \<open>The third pattern: from the first opening bracket to the last closing bracket.\<close>

lemma search_bracket_Some_iff:
  "search_bracket s = Some g \<longleftrightarrow>
     (\<exists>pre mid rest. s = pre @ [91] @ mid @ [93] @ rest \<and> 91 \<notin> set pre \<and> 93 \<notin> set rest \<and>
        g = [91] @ mid @ [93])"
  (is "?L \<longleftrightarrow> ?R")
proof
  assume ?R
  then obtain pre mid rest where
    s: "s = pre @ [91] @ mid @ [93] @ rest" and pre: "91 \<notin> set pre" and rest: "93 \<notin> set rest"
    and g: "g = [91] @ mid @ [93]" by blast
  have t: "dropWhile (\<lambda>c. c \<noteq> 91) s = 91 # mid @ [93] @ rest"
    unfolding s using pre by (subst dropWhile_append2) auto
  have "dropWhile (\<lambda>c. c \<noteq> 93) (rev (91 # mid @ [93] @ rest)) = 93 # rev mid @ [91]"
    using rest by (auto simp: dropWhile_append3 dropWhile_eq_Nil_conv)
  then show ?L by (simp add: search_bracket_def t g)
next
  assume ?L
  define t where "t = dropWhile (\<lambda>c. c \<noteq> 91) s"
  define pre where "pre = takeWhile (\<lambda>c. c \<noteq> 91) s"
  from \<open>?L\<close> have in93: "93 \<in> set t" and g: "g = rev (dropWhile (\<lambda>c. c \<noteq> 93) (rev t))"
    by (auto simp: search_bracket_def Let_def t_def split: if_splits)
  have s: "s = pre @ t" by (simp add: pre_def t_def)
  have pre: "91 \<notin> set pre" unfolding pre_def by (auto dest: set_takeWhileD)
  define u where "u = dropWhile (\<lambda>c. c \<noteq> 93) (rev t)"
  define p2 where "p2 = takeWhile (\<lambda>c. c \<noteq> 93) (rev t)"
  have rt: "rev t = p2 @ u" by (simp add: p2_def u_def)
  have p2: "93 \<notin> set p2" unfolding p2_def by (auto dest: set_takeWhileD)
  from in93 have une: "u \<noteq> []" unfolding u_def by (auto simp: dropWhile_eq_Nil_conv)
  then have "hd u = 93" using hd_dropWhile [of "\<lambda>c. c \<noteq> 93" "rev t"] unfolding u_def by blast
  with une obtain v where u: "u = 93 # v" by (cases u) auto
  from rt u have tt: "t = rev v @ [93] @ rev p2"
    by (metis append.assoc append_Cons append_Nil rev.simps(2) rev_append rev_rev_ident)
  from in93 have tne: "t \<noteq> []" by auto
  have "hd t = 91" using hd_dropWhile [of "\<lambda>c. c \<noteq> 91" s] tne unfolding t_def by blast
  with tt have "rev v \<noteq> []" by (cases "rev v") auto
  with \<open>hd t = 91\<close> tt obtain mid where mid: "rev v = 91 # mid" by (cases "rev v") auto
  have "g = rev u" by (simp add: g u_def)
  with u mid have g': "g = [91] @ mid @ [93]" by simp
  from s tt mid have "s = pre @ [91] @ mid @ [93] @ rev p2" by simp
  with pre p2 g' show ?R by (metis set_rev)
qed

lemma dropWhile_keeps:
  "\<not> P y \<Longrightarrow> \<exists>zs. dropWhile P (xs @ y # ys) = zs @ y # ys"
proof (induction xs)
  case Nil
  then have "dropWhile P ([] @ y # ys) = [] @ y # ys" by simp
  then show ?case by blast
next
  case (Cons x xs)
  show ?case
  proof (cases "P x")
    case True
    with Cons show ?thesis by simp
  next
    case False
    then have "dropWhile P ((x # xs) @ y # ys) = (x # xs) @ y # ys" by simp
    then show ?thesis by blast
  qed
qed

lemma search_bracket_None_iff:
  "search_bracket s = None \<longleftrightarrow> \<not> (\<exists>pre mid rest. s = pre @ [91] @ mid @ [93] @ rest)"
proof
  assume n: "search_bracket s = None"
  show "\<not> (\<exists>pre mid rest. s = pre @ [91] @ mid @ [93] @ rest)"
  proof
    assume "\<exists>pre mid rest. s = pre @ [91] @ mid @ [93] @ rest"
    then obtain pre mid rest where s: "s = pre @ 91 # (mid @ [93] @ rest)" by auto
    from dropWhile_keeps [of "\<lambda>c. c \<noteq> 91" 91 pre "mid @ [93] @ rest"]
    obtain zs where "dropWhile (\<lambda>c. c \<noteq> 91) s = zs @ 91 # (mid @ [93] @ rest)"
      unfolding s by auto
    then have "93 \<in> set (dropWhile (\<lambda>c. c \<noteq> 91) s)" by simp
    with n show False by (simp add: search_bracket_def Let_def)
  qed
next
  assume no: "\<not> (\<exists>pre mid rest. s = pre @ [91] @ mid @ [93] @ rest)"
  show "search_bracket s = None"
  proof (cases "search_bracket s")
    case (Some g)
    then have "\<exists>pre mid rest. s = pre @ [91] @ mid @ [93] @ rest"
      unfolding search_bracket_Some_iff by blast
    with no show ?thesis by simp
  qed simp
qed

text \<open>The end of the second pattern: optional whitespace and the closing fence.\<close>

lemma not_isspace_96: "\<not> isspace 96"
  by (simp add: isspace_def)

lemma closes_iff:
  "prefix fence (dropWhile isspace rest) \<longleftrightarrow>
     (\<exists>ws post. rest = ws @ fence @ post \<and> list_all isspace ws)"
proof
  assume "prefix fence (dropWhile isspace rest)"
  then obtain post where "dropWhile isspace rest = fence @ post" by (auto simp: prefix_def)
  then have "rest = takeWhile isspace rest @ fence @ post"
    by (metis takeWhile_dropWhile_id)
  moreover have "list_all isspace (takeWhile isspace rest)"
    by (auto simp: list_all_iff dest: set_takeWhileD)
  ultimately show "\<exists>ws post. rest = ws @ fence @ post \<and> list_all isspace ws" by blast
next
  assume "\<exists>ws post. rest = ws @ fence @ post \<and> list_all isspace ws"
  then obtain ws post where r: "rest = ws @ fence @ post" and ws: "list_all isspace ws" by blast
  from ws have "dropWhile isspace rest = dropWhile isspace (fence @ post)"
    unfolding r by (intro dropWhile_append2) (simp add: list_all_iff)
  also have "\<dots> = fence @ post" by (simp add: fence_def not_isspace_96)
  finally show "prefix fence (dropWhile isspace rest)" by simp
qed

text \<open>
  The lazy group: \<open>fence_body\<close> finds a closing bracket that the end of the pattern
  follows, and it is the first one.
\<close>

lemma fence_body_sound:
  "fence_body acc cs = Some g \<Longrightarrow>
   \<exists>mid rest. cs = mid @ [93] @ rest \<and> g = acc @ mid @ [93] \<and>
      prefix fence (dropWhile isspace rest)"
proof (induction cs arbitrary: acc)
  case Nil
  then show ?case by simp
next
  case (Cons c cs)
  show ?case
  proof (cases "c = 93 \<and> prefix fence (dropWhile isspace cs)")
    case True
    with Cons.prems have "c # cs = [] @ [93] @ cs \<and> g = acc @ [] @ [93] \<and>
      prefix fence (dropWhile isspace cs)" by auto
    then show ?thesis by blast
  next
    case False
    with Cons.prems have "fence_body (acc @ [c]) cs = Some g" by auto
    from Cons.IH [OF this] obtain mid rest where
      "cs = mid @ [93] @ rest" "g = (acc @ [c]) @ mid @ [93]"
      "prefix fence (dropWhile isspace rest)" by blast
    then have "c # cs = (c # mid) @ [93] @ rest \<and> g = acc @ (c # mid) @ [93] \<and>
      prefix fence (dropWhile isspace rest)" by simp
    then show ?thesis by blast
  qed
qed

lemma fence_body_first:
  "cs = mid @ [93] @ rest \<Longrightarrow> prefix fence (dropWhile isspace rest) \<Longrightarrow>
   \<exists>g. fence_body acc cs = Some g \<and> length g \<le> length acc + length mid + 1"
proof (induction cs arbitrary: acc mid)
  case Nil
  then show ?case by simp
next
  case (Cons c cs)
  show ?case
  proof (cases "c = 93 \<and> prefix fence (dropWhile isspace cs)")
    case True
    then show ?thesis by simp
  next
    case False
    with Cons.prems obtain mid' where mid: "mid = c # mid'" "cs = mid' @ [93] @ rest"
      by (cases mid) auto
    from Cons.IH [OF mid(2) Cons.prems(2), of "acc @ [c]"] obtain g where
      "fence_body (acc @ [c]) cs = Some g" "length g \<le> length (acc @ [c]) + length mid' + 1"
      by blast
    with False mid show ?thesis by auto
  qed
qed

text \<open>The start of the second pattern: the fence, the optional tag and whitespace.\<close>

lemma not_isspace_91: "\<not> isspace 91"
  by (simp add: isspace_def)

lemma fence_head_iff:
  "(\<exists>tag ws1. s = fence @ tag @ ws1 @ 91 # cs \<and> (tag = [] \<or> tag = py ''json'') \<and>
      list_all isspace ws1) \<longleftrightarrow>
   prefix fence s \<and>
   dropWhile isspace (if prefix (py ''json'') (drop 3 s) then drop 4 (drop 3 s) else drop 3 s)
     = 91 # cs"
  (is "?L \<longleftrightarrow> ?R")
proof
  assume ?L
  then obtain tag ws1 where s: "s = fence @ tag @ ws1 @ 91 # cs"
    and tag: "tag = [] \<or> tag = py ''json''" and ws: "list_all isspace ws1" by blast
  have d3: "drop 3 s = tag @ ws1 @ 91 # cs" by (simp add: s fence_def)
  have dw: "dropWhile isspace (ws1 @ 91 # cs) = 91 # cs"
    using ws by (simp add: dropWhile_append3 not_isspace_91 dropWhile_eq_Nil_conv list_all_iff)
  have p: "prefix fence s" by (simp add: s)
  from tag show ?R
  proof
    assume t: "tag = py ''json''"
    then have a: "prefix (py ''json'') (drop 3 s)" by (simp add: d3)
    have b: "drop 4 (drop 3 s) = ws1 @ 91 # cs" unfolding d3 by (simp add: t py_def)
    have "dropWhile isspace
        (if prefix (py ''json'') (drop 3 s) then drop 4 (drop 3 s) else drop 3 s) = 91 # cs"
      using a b dw by simp
    with p show ?R by blast
  next
    assume t: "tag = []"
    have "\<not> prefix (py ''json'') (ws1 @ 91 # cs)"
    proof (cases ws1)
      case Nil
      then show ?thesis by (simp add: py_def)
    next
      case (Cons x xs)
      with ws have "isspace x" by simp
      then have "x \<noteq> 106" by (auto simp: isspace_def)
      with Cons show ?thesis by (simp add: py_def)
    qed
    moreover have d3': "drop 3 s = ws1 @ 91 # cs" using d3 t by simp
    ultimately have a: "\<not> prefix (py ''json'') (drop 3 s)" by simp
    have "dropWhile isspace
        (if prefix (py ''json'') (drop 3 s) then drop 4 (drop 3 s) else drop 3 s) = 91 # cs"
      using a dw by (simp add: d3')
    with p show ?R by blast
  qed
next
  assume ?R
  then have p: "prefix fence s" and
    d: "dropWhile isspace (if prefix (py ''json'') (drop 3 s) then drop 4 (drop 3 s) else drop 3 s)
     = 91 # cs" by simp_all
  from p have s: "s = fence @ drop 3 s" by (auto simp: prefix_def fence_def)
  define tag where "tag = (if prefix (py ''json'') (drop 3 s) then py ''json'' else [])"
  define s2 where "s2 = (if prefix (py ''json'') (drop 3 s) then drop 4 (drop 3 s) else drop 3 s)"
  have d3: "drop 3 s = tag @ s2"
  proof (cases "prefix (py ''json'') (drop 3 s)")
    case True
    then obtain zs where z: "drop 3 s = py ''json'' @ zs" by (auto simp: prefix_def)
    have "drop 4 (drop 3 s) = zs" unfolding z by (simp add: py_def)
    with True z show ?thesis by (simp add: tag_def s2_def)
  next
    case False
    then show ?thesis by (simp add: tag_def s2_def)
  qed
  have "s2 = takeWhile isspace s2 @ dropWhile isspace s2" by simp
  with d have s2: "s2 = takeWhile isspace s2 @ 91 # cs" by (simp add: s2_def)
  have "list_all isspace (takeWhile isspace s2)"
    by (auto simp: list_all_iff dest: set_takeWhileD)
  moreover have "tag = [] \<or> tag = py ''json''" by (simp add: tag_def)
  moreover from s d3 s2 have "s = fence @ tag @ takeWhile isspace s2 @ 91 # cs"
    by (metis)
  ultimately show ?L by blast
qed

lemma fence_at_body:
  "fence_at s = Some g \<longleftrightarrow>
     (\<exists>cs. prefix fence s \<and>
        dropWhile isspace (if prefix (py ''json'') (drop 3 s) then drop 4 (drop 3 s) else drop 3 s)
          = 91 # cs \<and>
        fence_body [91] cs = Some g)"
proof -
  define d where "d = dropWhile isspace
      (if prefix (py ''json'') (drop 3 s) then drop 4 (drop 3 s) else drop 3 s)"
  have "fence_at s =
      (if prefix fence s
       then case d of [] \<Rightarrow> None | c # cs \<Rightarrow> if c = 91 then fence_body [c] cs else None
       else None)"
    by (simp add: fence_at_def Let_def d_def)
  then have "fence_at s = Some g \<longleftrightarrow>
      (\<exists>cs. prefix fence s \<and> d = 91 # cs \<and> fence_body [91] cs = Some g)"
    by (cases d) auto
  then show ?thesis unfolding d_def .
qed

lemma fence_matches_body:
  "fence_matches s g \<longleftrightarrow>
     (\<exists>cs mid rest. prefix fence s \<and>
        dropWhile isspace (if prefix (py ''json'') (drop 3 s) then drop 4 (drop 3 s) else drop 3 s)
          = 91 # cs \<and>
        cs = mid @ [93] @ rest \<and> g = [91] @ mid @ [93] \<and> prefix fence (dropWhile isspace rest))"
  (is "?L \<longleftrightarrow> ?R")
proof
  assume ?L
  then obtain tag ws1 mid ws2 rest where
    s: "s = fence @ tag @ ws1 @ g @ ws2 @ fence @ rest" and
    tag: "tag = [] \<or> tag = py ''json''" and ws1: "list_all isspace ws1" and
    ws2: "list_all isspace ws2" and g: "g = [91] @ mid @ [93]"
    unfolding fence_matches_def by blast
  let ?cs = "mid @ [93] @ (ws2 @ fence @ rest)"
  from s g have "s = fence @ tag @ ws1 @ 91 # ?cs" by simp
  with tag ws1 have "\<exists>tag ws1. s = fence @ tag @ ws1 @ 91 # ?cs \<and>
      (tag = [] \<or> tag = py ''json'') \<and> list_all isspace ws1" by blast
  then have h: "prefix fence s \<and>
      dropWhile isspace (if prefix (py ''json'') (drop 3 s) then drop 4 (drop 3 s) else drop 3 s)
        = 91 # ?cs" unfolding fence_head_iff .
  from ws2 have "prefix fence (dropWhile isspace (ws2 @ fence @ rest))"
    unfolding closes_iff by blast
  with h g show ?R by blast
next
  assume ?R
  then obtain cs mid rest where
    h: "prefix fence s \<and>
      dropWhile isspace (if prefix (py ''json'') (drop 3 s) then drop 4 (drop 3 s) else drop 3 s)
        = 91 # cs" and
    cs: "cs = mid @ [93] @ rest" and g: "g = [91] @ mid @ [93]" and
    c: "prefix fence (dropWhile isspace rest)" by blast
  from h obtain tag ws1 where s: "s = fence @ tag @ ws1 @ 91 # cs"
    and tag: "tag = [] \<or> tag = py ''json''" and ws1: "list_all isspace ws1"
    unfolding fence_head_iff [symmetric] by blast
  from c obtain ws2 post where r: "rest = ws2 @ fence @ post" and ws2: "list_all isspace ws2"
    unfolding closes_iff by blast
  from s cs g r have "s = fence @ tag @ ws1 @ g @ ws2 @ fence @ post" by simp
  with tag ws1 ws2 g show ?L unfolding fence_matches_def by blast
qed

text \<open>
  At one start position the pattern gives the shortest group that matches; \<open>fence_at\<close>
  fails exactly when nothing matches there.
\<close>

lemma fence_at_Some_iff:
  "fence_at s = Some g \<longleftrightarrow>
     fence_matches s g \<and> (\<forall>g'. fence_matches s g' \<longrightarrow> length g \<le> length g')"
  (is "?L \<longleftrightarrow> ?R")
proof -
  let ?d = "dropWhile isspace
      (if prefix (py ''json'') (drop 3 s) then drop 4 (drop 3 s) else drop 3 s)"
  have first: "\<exists>g0. fence_at s = Some g0 \<and> length g0 \<le> length g'" if "fence_matches s g'" for g'
  proof -
    from that obtain cs mid rest where p: "prefix fence s" and d: "?d = 91 # cs" and
      cs: "cs = mid @ [93] @ rest" and g': "g' = [91] @ mid @ [93]" and
      c: "prefix fence (dropWhile isspace rest)"
      unfolding fence_matches_body by blast
    from fence_body_first [OF cs c, of "[91]"] obtain g0 where
      "fence_body [91] cs = Some g0" "length g0 \<le> length [91::nat] + length mid + 1" by blast
    with p d g' have "fence_at s = Some g0 \<and> length g0 \<le> length g'"
      unfolding fence_at_body by auto
    then show ?thesis by blast
  qed
  have sound: "fence_matches s g0" if "fence_at s = Some g0" for g0
  proof -
    from that obtain cs where p: "prefix fence s" and d: "?d = 91 # cs" and
      b: "fence_body [91] cs = Some g0" unfolding fence_at_body by blast
    from fence_body_sound [OF b] p d show ?thesis unfolding fence_matches_body by blast
  qed
  have shape: "g' = 91 # take (length g' - 1) (tl ?d)" if "fence_matches s g'" for g'
  proof -
    from that obtain cs mid rest where d: "?d = 91 # cs" and
      cs: "cs = mid @ [93] @ rest" and g': "g' = [91] @ mid @ [93]"
      unfolding fence_matches_body by blast
    then show ?thesis by simp
  qed
  show ?thesis
  proof
    assume ?L
    then have "fence_matches s g" by (rule sound)
    moreover have "length g \<le> length g'" if "fence_matches s g'" for g'
      using first [OF that] \<open>?L\<close> by auto
    ultimately show ?R by blast
  next
    assume r: ?R
    then obtain g0 where g0: "fence_at s = Some g0" "length g0 \<le> length g"
      using first by blast
    from sound [OF g0(1)] r have "length g \<le> length g0" by blast
    with g0(2) have "length g = length g0" by simp
    with shape [of g] shape [OF sound [OF g0(1)]] r have "g = g0" by metis
    with g0 show ?L by simp
  qed
qed

lemma fence_at_None_iff: "fence_at s = None \<longleftrightarrow> (\<forall>g. \<not> fence_matches s g)"
proof
  assume n: "fence_at s = None"
  show "\<forall>g. \<not> fence_matches s g"
  proof (intro allI notI)
    fix g assume m: "fence_matches s g"
    define k where "k = (LEAST n. \<exists>g'. fence_matches s g' \<and> length g' = n)"
    from m have "\<exists>g'. fence_matches s g' \<and> length g' = k"
      unfolding k_def by (intro LeastI_ex [of "\<lambda>n. \<exists>g'. fence_matches s g' \<and> length g' = n"]) blast
    then obtain g0 where g0: "fence_matches s g0" "length g0 = k" by blast
    have "length g0 \<le> length g'" if "fence_matches s g'" for g'
      unfolding g0(2) k_def using that
      by (intro Least_le [of "\<lambda>n. \<exists>g'. fence_matches s g' \<and> length g' = n"]) blast
    with g0(1) have "fence_at s = Some g0" unfolding fence_at_Some_iff by blast
    with n show False by simp
  qed
next
  assume "\<forall>g. \<not> fence_matches s g"
  then show "fence_at s = None"
    by (cases "fence_at s") (auto simp: fence_at_Some_iff)
qed

text \<open>The search tries the start positions from the left and stops at the first match.\<close>

lemma search_fence_None_at:
  "search_fence s = None \<longleftrightarrow> (\<forall>pre suf. s = pre @ suf \<longrightarrow> fence_at suf = None)"
proof (induction s)
  case Nil
  then show ?case by simp
next
  case (Cons c cs)
  have "search_fence (c # cs) = None \<longleftrightarrow> fence_at (c # cs) = None \<and> search_fence cs = None"
    by (simp split: option.splits)
  also have "\<dots> \<longleftrightarrow> fence_at (c # cs) = None \<and> (\<forall>pre suf. cs = pre @ suf \<longrightarrow> fence_at suf = None)"
    by (simp only: Cons.IH)
  also have "\<dots> \<longleftrightarrow> (\<forall>pre suf. c # cs = pre @ suf \<longrightarrow> fence_at suf = None)"
    by (auto simp: Cons_eq_append_conv)
  finally show ?case .
qed

lemma search_fence_Some_at:
  "search_fence s = Some g \<longleftrightarrow>
     (\<exists>pre suf. s = pre @ suf \<and> fence_at suf = Some g \<and>
        (\<forall>pre' suf'. s = pre' @ suf' \<and> length pre' < length pre \<longrightarrow> fence_at suf' = None))"
proof (induction s)
  case Nil
  then show ?case by simp
next
  case (Cons c cs)
  show ?case
  proof (cases "fence_at (c # cs)")
    case (Some g0)
    have "(\<exists>pre suf. c # cs = pre @ suf \<and> fence_at suf = Some g \<and>
        (\<forall>pre' suf'. c # cs = pre' @ suf' \<and> length pre' < length pre \<longrightarrow> fence_at suf' = None))
      \<longleftrightarrow> g = g0"
    proof
      assume "g = g0"
      with Some have "c # cs = [] @ (c # cs) \<and> fence_at (c # cs) = Some g \<and>
        (\<forall>pre' suf'. c # cs = pre' @ suf' \<and> length pre' < length ([]::pystr) \<longrightarrow>
           fence_at suf' = None)" by simp
      then show "\<exists>pre suf. c # cs = pre @ suf \<and> fence_at suf = Some g \<and>
        (\<forall>pre' suf'. c # cs = pre' @ suf' \<and> length pre' < length pre \<longrightarrow> fence_at suf' = None)"
        by blast
    next
      assume "\<exists>pre suf. c # cs = pre @ suf \<and> fence_at suf = Some g \<and>
        (\<forall>pre' suf'. c # cs = pre' @ suf' \<and> length pre' < length pre \<longrightarrow> fence_at suf' = None)"
      then obtain pre suf where ps: "c # cs = pre @ suf" "fence_at suf = Some g"
        and left: "\<forall>pre' suf'. c # cs = pre' @ suf' \<and> length pre' < length pre \<longrightarrow>
           fence_at suf' = None" by blast
      show "g = g0"
      proof (cases pre)
        case Nil
        with ps Some show ?thesis by simp
      next
        case (Cons x xs)
        then have "c # cs = [] @ (c # cs) \<and> length ([]::pystr) < length pre" by simp
        with left have "fence_at (c # cs) = None" by blast
        with Some show ?thesis by simp
      qed
    qed
    with Some show ?thesis by auto
  next
    case None
    have "(\<exists>pre suf. c # cs = pre @ suf \<and> fence_at suf = Some g \<and>
        (\<forall>pre' suf'. c # cs = pre' @ suf' \<and> length pre' < length pre \<longrightarrow> fence_at suf' = None))
      \<longleftrightarrow> (\<exists>pre suf. cs = pre @ suf \<and> fence_at suf = Some g \<and>
        (\<forall>pre' suf'. cs = pre' @ suf' \<and> length pre' < length pre \<longrightarrow> fence_at suf' = None))"
      (is "?A \<longleftrightarrow> ?B")
    proof
      assume ?A
      then obtain pre suf where ps: "c # cs = pre @ suf" "fence_at suf = Some g"
        and left: "\<forall>pre' suf'. c # cs = pre' @ suf' \<and> length pre' < length pre \<longrightarrow>
           fence_at suf' = None" by blast
      from ps None obtain p2 where p2: "pre = c # p2" "cs = p2 @ suf"
        by (cases pre) auto
      have "fence_at suf' = None" if "cs = pre' @ suf'" "length pre' < length p2" for pre' suf'
      proof -
        from that p2 have "c # cs = (c # pre') @ suf' \<and> length (c # pre') < length pre" by simp
        with left show ?thesis by blast
      qed
      with p2 ps(2) show ?B by blast
    next
      assume ?B
      then obtain p2 suf where ps: "cs = p2 @ suf" "fence_at suf = Some g"
        and left: "\<forall>pre' suf'. cs = pre' @ suf' \<and> length pre' < length p2 \<longrightarrow>
           fence_at suf' = None" by blast
      have "fence_at suf' = None"
        if "c # cs = pre' @ suf'" "length pre' < length (c # p2)" for pre' suf'
      proof (cases pre')
        case Nil
        with that None show ?thesis by simp
      next
        case (Cons x xs)
        with that have "cs = xs @ suf' \<and> length xs < length p2" by simp
        with left show ?thesis by blast
      qed
      moreover from ps have "c # cs = (c # p2) @ suf" by simp
      ultimately show ?A using ps(2) by blast
    qed
    with None Cons.IH show ?thesis by simp
  qed
qed

lemma search_fence_Some_iff:
  "search_fence s = Some g \<longleftrightarrow>
     (\<exists>pre suf. s = pre @ suf \<and> fence_matches suf g \<and>
        (\<forall>g'. fence_matches suf g' \<longrightarrow> length g \<le> length g') \<and>
        (\<forall>pre' suf' g'. s = pre' @ suf' \<and> fence_matches suf' g' \<longrightarrow> length pre \<le> length pre'))"
  (is "?L \<longleftrightarrow> ?R")
proof
  assume ?L
  then obtain pre suf where ps: "s = pre @ suf" "fence_at suf = Some g"
    and left: "\<forall>pre' suf'. s = pre' @ suf' \<and> length pre' < length pre \<longrightarrow> fence_at suf' = None"
    unfolding search_fence_Some_at by blast
  have "length pre \<le> length pre'" if "s = pre' @ suf'" "fence_matches suf' g'" for pre' suf' g'
  proof (rule ccontr)
    assume "\<not> length pre \<le> length pre'"
    then have "length pre' < length pre" by simp
    with that(1) left have "fence_at suf' = None" by blast
    with that(2) show False unfolding fence_at_None_iff by blast
  qed
  with ps show ?R unfolding fence_at_Some_iff by blast
next
  assume ?R
  then obtain pre suf where ps: "s = pre @ suf" "fence_matches suf g"
    "\<forall>g'. fence_matches suf g' \<longrightarrow> length g \<le> length g'"
    and left: "\<forall>pre' suf' g'. s = pre' @ suf' \<and> fence_matches suf' g' \<longrightarrow>
      length pre \<le> length pre'" by blast
  from ps(2,3) have at: "fence_at suf = Some g" unfolding fence_at_Some_iff by blast
  have "fence_at suf' = None" if "s = pre' @ suf'" "length pre' < length pre" for pre' suf'
  proof (cases "fence_at suf'")
    case (Some g')
    then have "fence_matches suf' g'" unfolding fence_at_Some_iff by blast
    with that(1) left have "length pre \<le> length pre'" by blast
    with that(2) show ?thesis by simp
  qed simp
  with ps(1) at show ?L unfolding search_fence_Some_at by blast
qed

lemma search_fence_None_iff:
  "search_fence s = None \<longleftrightarrow> (\<forall>pre suf g. s = pre @ suf \<longrightarrow> \<not> fence_matches suf g)"
  unfolding search_fence_None_at fence_at_None_iff by blast

lemma third_strategy_cases:
  "third_strategy loads r =
     (case search_bracket r of
        None \<Rightarrow> Inr (JArray [])
      | Some h \<Rightarrow>
          (case loads h of
             Loaded v \<Rightarrow> Inr v | JSONDecodeError \<Rightarrow> Inr (JArray []) | Raises e \<Rightarrow> Inl e))"
  by (simp add: third_strategy_def split: option.splits)

lemma extract_no_raise:
  assumes "\<forall>g e. sublist g r \<longrightarrow> loads g \<noteq> Raises e"
  shows "\<exists>v. extract_json_from_response loads r = Inr v"
proof -
  have 3: "\<exists>v. third_strategy loads r = Inr v"
  proof (cases "search_bracket r")
    case None
    then show ?thesis by (simp add: third_strategy_def)
  next
    case (Some h)
    with search_bracket_Some [of r h] assms have "\<forall>e. loads h \<noteq> Raises e" by blast
    with Some show ?thesis by (cases "loads h") (simp_all add: third_strategy_def)
  qed
  have 2: "\<exists>v. second_strategy loads r = Inr v"
  proof (cases "search_fence r")
    case None
    with 3 show ?thesis by (simp add: second_strategy_def)
  next
    case (Some g)
    with search_fence_Some [of r g] assms have "\<forall>e. loads g \<noteq> Raises e" by blast
    with Some 3 show ?thesis by (cases "loads g") (simp_all add: second_strategy_def)
  qed
  from assms have "\<forall>e. loads r \<noteq> Raises e" by blast
  with 2 show ?thesis
    by (cases "loads r") (simp_all add: extract_json_from_response_def split: json.splits)
qed

lemma extract_is_array:
  assumes "reads_arrays loads" and "extract_json_from_response loads r = Inr v"
  shows "\<exists>xs. v = JArray xs"
proof -
  have *: "\<exists>xs. v = JArray xs" if "loads g = Loaded v" "\<exists>t. g = 91 # t" for g v
    using assms(1) that unfolding reads_arrays_def by blast
  have 3: "\<exists>xs. v = JArray xs" if "third_strategy loads r = Inr v" for v
  proof (cases "search_bracket r")
    case None
    with that show ?thesis by (auto simp: third_strategy_def)
  next
    case (Some h)
    with that * [of h] search_bracket_Some [of r h] show ?thesis
      by (cases "loads h") (auto simp: third_strategy_def)
  qed
  have 2: "\<exists>xs. v = JArray xs" if "second_strategy loads r = Inr v" for v
  proof (cases "search_fence r")
    case None
    with that 3 show ?thesis by (simp add: second_strategy_def)
  next
    case (Some g)
    with that 3 * [of g] search_fence_Some [of r g] show ?thesis
      by (cases "loads g") (auto simp: second_strategy_def)
  qed
  from assms(2) 2 show ?thesis
    by (cases "loads r") (auto simp: extract_json_from_response_def split: json.splits)
qed

lemma extract_nothing_parseable:
  assumes "reads_arrays loads"
    and "\<forall>g e. sublist g r \<longrightarrow> loads g \<noteq> Raises e"
    and "\<forall>g xs. sublist g r \<longrightarrow> loads g \<noteq> Loaded (JArray xs)"
  shows "extract_json_from_response loads r = Inr (JArray [])"
proof -
  have *: "loads g = JSONDecodeError" if "sublist g r" "\<exists>t. g = 91 # t" for g
  proof (cases "loads g")
    case (Loaded v)
    with assms(1) that(2) have "\<exists>xs. v = JArray xs" unfolding reads_arrays_def by blast
    with Loaded that(1) assms(3) show ?thesis by blast
  next
    case (Raises e)
    with that(1) assms(2) show ?thesis by blast
  qed simp
  have 3: "third_strategy loads r = Inr (JArray [])"
  proof (cases "search_bracket r")
    case None
    then show ?thesis by (simp add: third_strategy_def)
  next
    case (Some h)
    with * [of h] search_bracket_Some [of r h] show ?thesis by (simp add: third_strategy_def)
  qed
  have 2: "second_strategy loads r = Inr (JArray [])"
  proof (cases "search_fence r")
    case None
    with 3 show ?thesis by (simp add: second_strategy_def)
  next
    case (Some g)
    with 3 * [of g] search_fence_Some [of r g] show ?thesis by (simp add: second_strategy_def)
  qed
  have "\<forall>xs. loads r \<noteq> Loaded (JArray xs)" "\<forall>e. loads r \<noteq> Raises e"
    using assms(2,3) by blast+
  with 2 show ?thesis
    by (cases "loads r") (auto simp: extract_json_from_response_def split: json.splits)
qed

lemma extract_order:
  "(\<forall>xs. loads r = Loaded (JArray xs) \<longrightarrow>
      extract_json_from_response loads r = Inr (JArray xs)) \<and>
   (loads r = JSONDecodeError \<or> (\<exists>v. loads r = Loaded v \<and> (\<forall>xs. v \<noteq> JArray xs)) \<longrightarrow>
      (\<forall>g v. search_fence r = Some g \<and> loads g = Loaded v \<longrightarrow>
         extract_json_from_response loads r = Inr v) \<and>
      (search_fence r = None \<or> (\<exists>g. search_fence r = Some g \<and> loads g = JSONDecodeError) \<longrightarrow>
         (\<forall>h v. search_bracket r = Some h \<and> loads h = Loaded v \<longrightarrow>
            extract_json_from_response loads r = Inr v) \<and>
         (search_bracket r = None \<or> (\<exists>h. search_bracket r = Some h \<and> loads h = JSONDecodeError) \<longrightarrow>
            extract_json_from_response loads r = Inr (JArray []))))"
proof (intro conjI impI)
  show "\<forall>xs. loads r = Loaded (JArray xs) \<longrightarrow>
      extract_json_from_response loads r = Inr (JArray xs)"
    by (simp add: extract_json_from_response_def)
next
  assume "loads r = JSONDecodeError \<or> (\<exists>v. loads r = Loaded v \<and> (\<forall>xs. v \<noteq> JArray xs))"
  then have e: "extract_json_from_response loads r = second_strategy loads r"
    by (auto simp: extract_json_from_response_def split: json.splits)
  show "\<forall>g v. search_fence r = Some g \<and> loads g = Loaded v \<longrightarrow>
         extract_json_from_response loads r = Inr v"
    unfolding e by (simp add: second_strategy_def)
  assume "search_fence r = None \<or> (\<exists>g. search_fence r = Some g \<and> loads g = JSONDecodeError)"
  then have e3: "extract_json_from_response loads r = third_strategy loads r"
    unfolding e by (auto simp: second_strategy_def)
  show "\<forall>h v. search_bracket r = Some h \<and> loads h = Loaded v \<longrightarrow>
            extract_json_from_response loads r = Inr v"
    unfolding e3 by (simp add: third_strategy_def)
  assume "search_bracket r = None \<or> (\<exists>h. search_bracket r = Some h \<and> loads h = JSONDecodeError)"
  then show "extract_json_from_response loads r = Inr (JArray [])"
    unfolding e3 by (auto simp: third_strategy_def)
qed

text \<open>
  Claim C4, amended. \<open>extract_json_from_response\<close> tries three strategies in order and
  returns the result of the first that succeeds: the whole text decoded, taken only when
  it is an array; the decoded group of the first fenced block, the tag \<^verbatim>\<open>json\<close> being
  optional, where the search takes the leftmost start and there the shortest group from a
  \<^verbatim>\<open>[\<close> to a \<^verbatim>\<open>]\<close> that whitespace and a fence follow; the decoded text from the first
  \<^verbatim>\<open>[\<close> to the last \<^verbatim>\<open>]\<close>. When every strategy finds nothing or ends in a decode error
  the result is the empty list. As long as the decoder raises nothing but decode errors
  on the parts of the text, the function returns a value; with a decoder that reads a
  text starting with \<^verbatim>\<open>[\<close> as a list, that value is a list, and it is the empty list
  when no part of the text decodes to an array.
\<close>

theorem extract_json_strategies:
  "(\<forall>xs. loads r = Loaded (JArray xs) \<longrightarrow>
      extract_json_from_response loads r = Inr (JArray xs)) \<and>
   (loads r = JSONDecodeError \<or> (\<exists>v. loads r = Loaded v \<and> (\<forall>xs. v \<noteq> JArray xs)) \<longrightarrow>
      (\<forall>g v. search_fence r = Some g \<and> loads g = Loaded v \<longrightarrow>
         extract_json_from_response loads r = Inr v) \<and>
      (search_fence r = None \<or> (\<exists>g. search_fence r = Some g \<and> loads g = JSONDecodeError) \<longrightarrow>
         (\<forall>h v. search_bracket r = Some h \<and> loads h = Loaded v \<longrightarrow>
            extract_json_from_response loads r = Inr v) \<and>
         (search_bracket r = None \<or> (\<exists>h. search_bracket r = Some h \<and> loads h = JSONDecodeError) \<longrightarrow>
            extract_json_from_response loads r = Inr (JArray [])))) \<and>
   (\<forall>g. search_fence r = Some g \<longleftrightarrow>
      (\<exists>pre suf. r = pre @ suf \<and> fence_matches suf g \<and>
         (\<forall>g'. fence_matches suf g' \<longrightarrow> length g \<le> length g') \<and>
         (\<forall>pre' suf' g'. r = pre' @ suf' \<and> fence_matches suf' g' \<longrightarrow>
            length pre \<le> length pre'))) \<and>
   (search_fence r = None \<longleftrightarrow> (\<forall>pre suf g. r = pre @ suf \<longrightarrow> \<not> fence_matches suf g)) \<and>
   (\<forall>h. search_bracket r = Some h \<longleftrightarrow>
      (\<exists>pre mid rest. r = pre @ [91] @ mid @ [93] @ rest \<and> 91 \<notin> set pre \<and> 93 \<notin> set rest \<and>
         h = [91] @ mid @ [93])) \<and>
   (search_bracket r = None \<longleftrightarrow> \<not> (\<exists>pre mid rest. r = pre @ [91] @ mid @ [93] @ rest)) \<and>
   ((\<forall>g e. sublist g r \<longrightarrow> loads g \<noteq> Raises e) \<longrightarrow>
      (\<exists>v. extract_json_from_response loads r = Inr v) \<and>
      (reads_arrays loads \<longrightarrow>
         (\<exists>xs. extract_json_from_response loads r = Inr (JArray xs)) \<and>
         ((\<forall>g xs. sublist g r \<longrightarrow> loads g \<noteq> Loaded (JArray xs)) \<longrightarrow>
            extract_json_from_response loads r = Inr (JArray []))))"
  (is "?A \<and> ?B \<and> ?C \<and> ?D \<and> ?E \<and> ?F \<and> ?G")
proof -
  have last: "(\<forall>g e. sublist g r \<longrightarrow> loads g \<noteq> Raises e) \<longrightarrow>
      (\<exists>v. extract_json_from_response loads r = Inr v) \<and>
      (reads_arrays loads \<longrightarrow>
         (\<exists>xs. extract_json_from_response loads r = Inr (JArray xs)) \<and>
         ((\<forall>g xs. sublist g r \<longrightarrow> loads g \<noteq> Loaded (JArray xs)) \<longrightarrow>
            extract_json_from_response loads r = Inr (JArray [])))"
  proof (intro impI conjI)
    assume nr: "\<forall>g e. sublist g r \<longrightarrow> loads g \<noteq> Raises e"
    then show v: "\<exists>v. extract_json_from_response loads r = Inr v" by (rule extract_no_raise)
    assume ra: "reads_arrays loads"
    from v obtain v where "extract_json_from_response loads r = Inr v" by blast
    with extract_is_array [OF ra this]
    show "\<exists>xs. extract_json_from_response loads r = Inr (JArray xs)" by blast
    assume "\<forall>g xs. sublist g r \<longrightarrow> loads g \<noteq> Loaded (JArray xs)"
    with ra nr show "extract_json_from_response loads r = Inr (JArray [])"
      by (rule extract_nothing_parseable)
  qed
  have a: ?A using extract_order [of loads r] by (rule conjunct1)
  have b: ?B using extract_order [of loads r] by (rule conjunct2)
  have c: ?C by (intro allI search_fence_Some_iff)
  have d: ?D by (rule search_fence_None_iff)
  have e: ?E by (intro allI search_bracket_Some_iff)
  have f: ?F by (rule search_bracket_None_iff)
  show ?thesis by (intro conjI a b c d e f last)
qed

lemma reads_arrays_parser_table: "reads_arrays (table_loads parser_table)"
  by (auto simp: reads_arrays_def table_loads_def parser_table_def py_def quoted_def
      split: option.splits if_splits)

lemma table_loads_never_raises: "table_loads table s \<noteq> Raises e"
  by (simp add: table_loads_def split: option.splits)

theorem extract_json_strategies_witness:
  "reads_arrays (table_loads parser_table) \<and>
   (\<forall>g e. table_loads parser_table g \<noteq> Raises e) \<and>
   extract_json_from_response (table_loads parser_table)
     (py ''[{'' @ quoted (py ''x'') @ py '':1},{'' @ quoted (py ''y'') @ py '':2}]'')
     = Inr (JArray [JObject [(py ''x'', JInt 1)], JObject [(py ''y'', JInt 2)]]) \<and>
   table_loads parser_table
     (py ''prefix ```json'' @ [10] @ py ''[{'' @ quoted (py ''a'') @ py '':1}]'' @ [10] @
      py ''``` suffix'') = JSONDecodeError \<and>
   search_fence
     (py ''prefix ```json'' @ [10] @ py ''[{'' @ quoted (py ''a'') @ py '':1}]'' @ [10] @
      py ''``` suffix'') = Some (py ''[{'' @ quoted (py ''a'') @ py '':1}]'') \<and>
   extract_json_from_response (table_loads parser_table)
     (py ''prefix ```json'' @ [10] @ py ''[{'' @ quoted (py ''a'') @ py '':1}]'' @ [10] @
      py ''``` suffix'') = Inr (JArray [JObject [(py ''a'', JInt 1)]]) \<and>
   search_fence (py ''Here: [{'' @ quoted (py ''a'') @ py '':1}] done'') = None \<and>
   search_bracket (py ''Here: [{'' @ quoted (py ''a'') @ py '':1}] done'')
     = Some (py ''[{'' @ quoted (py ''a'') @ py '':1}]'') \<and>
   extract_json_from_response (table_loads parser_table)
     (py ''Here: [{'' @ quoted (py ''a'') @ py '':1}] done'')
     = Inr (JArray [JObject [(py ''a'', JInt 1)]]) \<and>
   extract_json_from_response (table_loads parser_table)
     (py ''{'' @ quoted (py ''mcqs'') @ py '': [1]}'') = Inr (JArray [JInt 1]) \<and>
   search_fence (py ''```[1] ``` ]```'') = Some (py ''[1]'') \<and>
   search_bracket (py ''a[1] b]c'') = Some (py ''[1] b]'') \<and>
   extract_json_from_response (table_loads parser_table) (py ''a[1] b]c'') = Inr (JArray []) \<and>
   search_fence (py ''no json here'') = None \<and>
   search_bracket (py ''no json here'') = None \<and>
   extract_json_from_response (table_loads parser_table) (py ''no json here'') = Inr (JArray [])"
proof -
  let ?r = "py ''prefix ```json'' @ [10] @ py ''[{'' @ quoted (py ''a'') @ py '':1}]'' @ [10] @
      py ''``` suffix''"
  let ?g = "py ''[{'' @ quoted (py ''a'') @ py '':1}]''"
  have l: "table_loads parser_table ?r = JSONDecodeError"
    by (simp add: table_loads_def parser_table_def py_def quoted_def)
  have sf: "search_fence ?r = Some ?g"
    by (simp add: py_def quoted_def fence_at_def fence_def isspace_def)
  have lg: "table_loads parser_table ?g = Loaded (JArray [JObject [(py ''a'', JInt 1)]])"
    by (simp add: table_loads_def parser_table_def py_def quoted_def)
  from extract_json_strategies [of "table_loads parser_table" ?r, THEN conjunct2, THEN conjunct1] l
  have "\<forall>g v. search_fence ?r = Some g \<and> table_loads parser_table g = Loaded v \<longrightarrow>
      extract_json_from_response (table_loads parser_table) ?r = Inr v" by blast
  with sf lg have fenced: "extract_json_from_response (table_loads parser_table) ?r
      = Inr (JArray [JObject [(py ''a'', JInt 1)]])" by blast
  have others:
    "extract_json_from_response (table_loads parser_table)
       (py ''[{'' @ quoted (py ''x'') @ py '':1},{'' @ quoted (py ''y'') @ py '':2}]'')
       = Inr (JArray [JObject [(py ''x'', JInt 1)], JObject [(py ''y'', JInt 2)]])"
    "search_fence (py ''Here: [{'' @ quoted (py ''a'') @ py '':1}] done'') = None"
    "search_bracket (py ''Here: [{'' @ quoted (py ''a'') @ py '':1}] done'')
       = Some (py ''[{'' @ quoted (py ''a'') @ py '':1}]'')"
    "extract_json_from_response (table_loads parser_table)
       (py ''Here: [{'' @ quoted (py ''a'') @ py '':1}] done'')
       = Inr (JArray [JObject [(py ''a'', JInt 1)]])"
    "extract_json_from_response (table_loads parser_table)
       (py ''{'' @ quoted (py ''mcqs'') @ py '': [1]}'') = Inr (JArray [JInt 1])"
    "search_fence (py ''```[1] ``` ]```'') = Some (py ''[1]'')"
    "search_bracket (py ''a[1] b]c'') = Some (py ''[1] b]'')"
    "extract_json_from_response (table_loads parser_table) (py ''a[1] b]c'') = Inr (JArray [])"
    "search_fence (py ''no json here'') = None"
    "search_bracket (py ''no json here'') = None"
    "extract_json_from_response (table_loads parser_table) (py ''no json here'') = Inr (JArray [])"
    by (simp_all add: table_loads_def parser_table_def py_def quoted_def
        extract_json_from_response_def second_strategy_def third_strategy_def
        fence_at_def fence_def isspace_def search_bracket_def)
  from reads_arrays_parser_table table_loads_never_raises l sf fenced others
  show ?thesis by (intro conjI allI)
qed

text \<open>
  Claim C4 as stated fails where it says that the function returns the empty list rather
  than raising: each \<^verbatim>\<open>try\<close> catches \<^verbatim>\<open>json.JSONDecodeError\<close> only. On two hundred thousand
  opening brackets, which hold no array that can be parsed, the decoder raises
  \<^verbatim>\<open>RecursionError\<close> and so does the function.
\<close>

theorem extract_json_strategies_counterexample:
  "(\<forall>g v. deep_loads g \<noteq> Loaded v) \<and>
   extract_json_from_response deep_loads deep_text = Inl RecursionError"
  by (simp add: deep_loads_def extract_json_from_response_def)

section \<open>The orchestrator: claims\<close>

lemma add_valid_step:
  "add_valid coerce n (d # ds) all =
     add_valid coerce n ds
       (case validate_mcq coerce d of
          Some m \<Rightarrow> if int (length all) < n then all @ [m] else all
        | None \<Rightarrow> all)"
  by (simp split: option.splits)

lemma add_valid_length_le:
  "int (length all) \<le> n \<Longrightarrow> int (length (add_valid coerce n ds all)) \<le> n"
proof (induction ds arbitrary: all)
  case Nil
  then show ?case by simp
next
  case (Cons d ds)
  have "int (length (case validate_mcq coerce d of
          Some m \<Rightarrow> if int (length all) < n then all @ [m] else all
        | None \<Rightarrow> all)) \<le> n"
    using Cons.prems by (simp split: option.splits)
  then show ?case unfolding add_valid_step by (rule Cons.IH)
qed

lemma add_valid_members:
  "m \<in> set (add_valid coerce n ds all) \<Longrightarrow>
   m \<in> set all \<or> (\<exists>d\<in>set ds. validate_mcq coerce d = Some m)"
proof (induction ds arbitrary: all)
  case Nil
  then show ?case by simp
next
  case (Cons d ds)
  let ?all = "case validate_mcq coerce d of
          Some m \<Rightarrow> if int (length all) < n then all @ [m] else all
        | None \<Rightarrow> all"
  from Cons.prems have "m \<in> set (add_valid coerce n ds ?all)"
    unfolding add_valid_step .
  from Cons.IH [OF this]
  have "m \<in> set ?all \<or> (\<exists>d\<in>set ds. validate_mcq coerce d = Some m)" .
  moreover have "m \<in> set ?all \<Longrightarrow> m \<in> set all \<or> validate_mcq coerce d = Some m"
    by (cases "validate_mcq coerce d") (auto split: if_splits)
  ultimately show ?case by auto
qed

lemma add_valid_none:
  "\<forall>d\<in>set ds. validate_mcq coerce d = None \<Longrightarrow> add_valid coerce n ds all = all"
  by (induction ds arbitrary: all) auto

lemma add_valid_prefix: "prefix all (add_valid coerce n ds all)"
proof (induction ds arbitrary: all)
  case Nil
  then show ?case by simp
next
  case (Cons d ds)
  have "prefix all (all @ [m])" for m by simp
  then have "prefix all (add_valid coerce n ds (all @ [m]))" for m
    using Cons.IH prefix_order.trans by blast
  with Cons.IH show ?case by (auto split: option.splits)
qed

lemma add_valid_empty_iff:
  assumes "0 < n"
  shows "add_valid coerce n ds [] = [] \<longleftrightarrow> (\<forall>d\<in>set ds. validate_mcq coerce d = None)"
proof
  assume "\<forall>d\<in>set ds. validate_mcq coerce d = None"
  then show "add_valid coerce n ds [] = []" by (rule add_valid_none)
next
  assume e: "add_valid coerce n ds [] = []"
  show "\<forall>d\<in>set ds. validate_mcq coerce d = None"
    using e
  proof (induction ds)
    case Nil
    then show ?case by simp
  next
    case (Cons d ds)
    show ?case
    proof (cases "validate_mcq coerce d")
      case None
      with Cons show ?thesis by simp
    next
      case (Some m)
      with assms Cons.prems have "add_valid coerce n ds [m] = []" by simp
      moreover have "prefix [m] (add_valid coerce n ds [m])" by (rule add_valid_prefix)
      ultimately show ?thesis by simp
    qed
  qed
qed

text \<open>What one call of \<open>ask\<close> does to the state.\<close>

lemma ask_unfold:
  "ask post loads coerce n idx retry p st =
     (let r = fst (call_ollama_generate post (world st) p);
          st1 = st\<lparr>world := snd (call_ollama_generate post (world st) p),
                   calls := calls st @
                     [\<lparr>chunk_idx = idx, is_retry = retry, prompt = p, outcome = r\<rparr>]\<rparr>
      in case r of
           Inl e \<Rightarrow> (Some e, st1)
         | Inr v \<Rightarrow>
             (case v of
                JString s \<Rightarrow>
                  (case extract_json_from_response loads s of
                     Inl e \<Rightarrow> (Some e, st1)
                   | Inr data \<Rightarrow>
                       (case py_iter data of
                          Inl e \<Rightarrow> (Some e, st1)
                        | Inr ds \<Rightarrow>
                            (None, st1\<lparr>all_mcqs := add_valid coerce n ds (all_mcqs st1)\<rparr>)))
              | _ \<Rightarrow> (Some TypeError, st1)))"
  by (cases "call_ollama_generate post (world st) p")
     (simp add: ask_def Let_def split: sum.splits json.splits)

lemma py_iter_error: "py_iter v = Inl e \<Longrightarrow> e = TypeError"
  by (cases v) (simp_all add: py_iter_def)

lemma ask_calls:
  assumes "ask post loads coerce n idx retry p st = (r, st')"
  shows "calls st' = calls st @
     [\<lparr>chunk_idx = idx, is_retry = retry, prompt = p,
       outcome = fst (call_ollama_generate post (world st) p)\<rparr>]"
proof (cases "fst (call_ollama_generate post (world st) p)")
  case (Inl e)
  with assms show ?thesis by (auto simp: ask_unfold Let_def)
next
  case (Inr v)
  with assms show ?thesis
    by (cases v) (auto simp: ask_unfold Let_def split: sum.splits)
qed

lemma ask_None:
  assumes "ask post loads coerce n idx retry p st = (None, st')"
  shows "\<exists>s data ds. fst (call_ollama_generate post (world st) p) = Inr (JString s) \<and>
     extract_json_from_response loads s = Inr data \<and> py_iter data = Inr ds \<and>
     all_mcqs st' = add_valid coerce n ds (all_mcqs st)"
proof (cases "fst (call_ollama_generate post (world st) p)")
  case (Inl e)
  with assms show ?thesis by (auto simp: ask_unfold Let_def)
next
  case (Inr v)
  with assms show ?thesis
    by (cases v) (auto simp: ask_unfold Let_def split: sum.splits)
qed

lemma ask_Some:
  assumes "ask post loads coerce n idx retry p st = (Some e, st')"
  shows "all_mcqs st' = all_mcqs st \<and>
     (fst (call_ollama_generate post (world st) p) = Inl e \<or>
      (\<exists>v. fst (call_ollama_generate post (world st) p) = Inr v))"
proof (cases "fst (call_ollama_generate post (world st) p)")
  case (Inl e)
  with assms show ?thesis by (auto simp: ask_unfold Let_def)
next
  case (Inr v)
  with assms show ?thesis
    by (cases v) (auto simp: ask_unfold Let_def split: sum.splits)
qed

lemma ask_client_failure:
  assumes "ask post loads coerce n idx retry p st = (r, st')"
    and "fst (call_ollama_generate post (world st) p) = Inl e"
  shows "r = Some e"
  using assms by (auto simp: ask_unfold Let_def)

lemma ask_succeeds:
  assumes "fst (call_ollama_generate post (world st) p) = Inr (JString s)"
    and "extract_json_from_response loads s = Inr data"
    and "py_iter data = Inr ds"
  shows "\<exists>st'. ask post loads coerce n idx retry p st = (None, st')"
  using assms by (simp add: ask_unfold Let_def)

text \<open>A property of \<^verbatim>\<open>all_mcqs\<close> that the validation loop keeps is kept by the whole run.\<close>

lemma ask_preserves:
  assumes "ask post loads coerce n idx retry p st = (r, st')"
    and "P (all_mcqs st)"
    and "\<And>ds all. P all \<Longrightarrow> P (add_valid coerce n ds all)"
  shows "P (all_mcqs st')"
proof (cases r)
  case None
  with assms(1) ask_None [of post loads coerce n idx retry p st st']
  obtain ds where "all_mcqs st' = add_valid coerce n ds (all_mcqs st)" by blast
  with assms(2,3) show ?thesis by simp
next
  case (Some e)
  with assms(1) ask_Some [of post loads coerce n idx retry p st e st']
  have "all_mcqs st' = all_mcqs st" by blast
  with assms(2) show ?thesis by simp
qed

lemma process_chunk_cases:
  assumes "process_chunk post loads coerce n difficulty qpc idx chunk st = (r, st')"
  obtains (first) "ask post loads coerce n idx False
        (format_prompt (min (n - int (length (all_mcqs st))) qpc) difficulty (take 3000 chunk)) st
        = (r, st')"
      "r \<noteq> None \<or> \<not> (all_mcqs st' = [] \<and> idx = 0)"
  | (retry) st1 where "ask post loads coerce n idx False
        (format_prompt (min (n - int (length (all_mcqs st))) qpc) difficulty (take 3000 chunk)) st
        = (None, st1)"
      "all_mcqs st1 = []" "idx = 0"
      "ask post loads coerce n idx True
        (format_prompt (min (n - int (length (all_mcqs st))) qpc) difficulty (take 3000 chunk)
           @ retry_instruction) st1 = (r, st')"
proof -
  let ?p = "format_prompt (min (n - int (length (all_mcqs st))) qpc) difficulty (take 3000 chunk)"
  obtain ra sta where a: "ask post loads coerce n idx False ?p st = (ra, sta)"
    by (cases "ask post loads coerce n idx False ?p st")
  show thesis
  proof (cases ra)
    case (Some e)
    with a assms have "r = ra" "st' = sta" by (simp_all add: process_chunk_def Let_def)
    with a Some show thesis by (intro first) simp_all
  next
    case None
    show thesis
    proof (cases "all_mcqs sta = [] \<and> idx = 0")
      case True
      with a None assms
      have "ask post loads coerce n idx True (?p @ retry_instruction) sta = (r, st')"
        by (simp add: process_chunk_def Let_def)
      with a None True show thesis by (intro retry [of sta]) simp_all
    next
      case False
      with a None assms have "r = ra" "st' = sta"
        by (auto simp: process_chunk_def Let_def)
      with a None False show thesis by (intro first) simp_all
    qed
  qed
qed

lemma process_chunk_preserves:
  assumes "process_chunk post loads coerce n difficulty qpc idx chunk st = (r, st')"
    and "P (all_mcqs st)"
    and "\<And>ds all. P all \<Longrightarrow> P (add_valid coerce n ds all)"
  shows "P (all_mcqs st')"
  using assms(1)
proof (cases rule: process_chunk_cases)
  case first
  from first(1) assms(2,3) show ?thesis by (rule ask_preserves)
next
  case (retry st1)
  from retry(1) assms(2,3) have "P (all_mcqs st1)" by (rule ask_preserves)
  with retry(4) show ?thesis using assms(3) by (rule ask_preserves)
qed

lemma chunks_loop_preserves:
  assumes "chunks_loop post loads coerce n difficulty qpc ics st = (r, st')"
    and "P (all_mcqs st)"
    and "\<And>ds all. P all \<Longrightarrow> P (add_valid coerce n ds all)"
  shows "P (all_mcqs st')"
  using assms(1,2)
proof (induction ics arbitrary: st)
  case Nil
  then show ?case by simp
next
  case (Cons ic ics)
  obtain idx chunk where ic: "ic = (idx, chunk)" by (cases ic)
  show ?case
  proof (cases "n - int (length (all_mcqs st)) \<le> 0")
    case True
    with Cons.prems ic show ?thesis by simp
  next
    case False
    obtain r1 st1 where
      pc: "process_chunk post loads coerce n difficulty qpc idx chunk st = (r1, st1)"
      by (cases "process_chunk post loads coerce n difficulty qpc idx chunk st")
    from pc Cons.prems(2) assms(3) have P1: "P (all_mcqs st1)"
      by (rule process_chunk_preserves)
    show ?thesis
    proof (cases r1)
      case None
      with Cons.prems(1) ic False pc
      have "chunks_loop post loads coerce n difficulty qpc ics st1 = (r, st')" by simp
      then show ?thesis using P1 by (rule Cons.IH)
    next
      case (Some e)
      with Cons.prems(1) ic False pc have "st' = st1" by simp
      with P1 show ?thesis by simp
    qed
  qed
qed

lemma generate_result:
  assumes "generate_mcqs_from_text post loads coerce w text n difficulty = (res, cs, w')"
  obtains r st' where
    "chunks_loop post loads coerce n difficulty
       (min MAX_QUESTIONS_PER_CHUNK (max 1 (n div int (length (chunk_text text MAX_CHUNK_SIZE)))))
       (enumerate 0 (chunk_text text MAX_CHUNK_SIZE)) \<lparr>world = w, calls = [], all_mcqs = []\<rparr>
     = (r, st')"
    "cs = calls st'" "w' = world st'"
    "res = (case r of Some e \<Rightarrow> Inl e | None \<Rightarrow> Inr (all_mcqs st'))"
proof -
  let ?l = "chunks_loop post loads coerce n difficulty
       (min MAX_QUESTIONS_PER_CHUNK (max 1 (n div int (length (chunk_text text MAX_CHUNK_SIZE)))))
       (enumerate 0 (chunk_text text MAX_CHUNK_SIZE)) \<lparr>world = w, calls = [], all_mcqs = []\<rparr>"
  obtain r st' where l: "?l = (r, st')" by (cases ?l)
  with assms have "cs = calls st'" "w' = world st'"
    "res = (case r of Some e \<Rightarrow> Inl e | None \<Rightarrow> Inr (all_mcqs st'))"
    by (auto simp: generate_mcqs_from_text_def Let_def split: option.splits)
  with l show thesis by (rule that)
qed

lemma validate_mcq_shape:
  assumes "validate_mcq coerce d = Some m"
  shows "length (options m) = 4 \<and> 0 \<le> answer m \<and> answer m \<le> 3"
proof -
  from assms obtain d' q os a where
    "length os = 4" "0 \<le> answer m" "answer m \<le> 3"
    "MCQ_new coerce q os (answer m)
       (case map_of d' (py ''explanation'') of Some e \<Rightarrow> e | None \<Rightarrow> JString []) = Some m"
    unfolding validate_mcq_iff by blast
  with MCQ_new_shape [of coerce q os "answer m" _ m] show ?thesis by auto
qed

lemma generate_from_loop:
  assumes "fst (generate_mcqs_from_text post loads coerce w text n difficulty) = Inr mcqs"
  obtains st' where
    "chunks_loop post loads coerce n difficulty
       (min MAX_QUESTIONS_PER_CHUNK (max 1 (n div int (length (chunk_text text MAX_CHUNK_SIZE)))))
       (enumerate 0 (chunk_text text MAX_CHUNK_SIZE)) \<lparr>world = w, calls = [], all_mcqs = []\<rparr>
     = (None, st')" "mcqs = all_mcqs st'"
proof -
  obtain res cs w' where
    g: "generate_mcqs_from_text post loads coerce w text n difficulty = (res, cs, w')"
    by (cases "generate_mcqs_from_text post loads coerce w text n difficulty")
  with assms have res: "res = Inr mcqs" by simp
  from g show thesis
  proof (rule generate_result)
    fix r st'
    assume l: "chunks_loop post loads coerce n difficulty
       (min MAX_QUESTIONS_PER_CHUNK (max 1 (n div int (length (chunk_text text MAX_CHUNK_SIZE)))))
       (enumerate 0 (chunk_text text MAX_CHUNK_SIZE)) \<lparr>world = w, calls = [], all_mcqs = []\<rparr>
     = (r, st')"
      and r: "res = (case r of Some e \<Rightarrow> Inl e | None \<Rightarrow> Inr (all_mcqs st'))"
    from r res have "r = None" "mcqs = all_mcqs st'" by (auto split: option.splits)
    with l show thesis by (intro that [of st']) simp_all
  qed
qed

lemma generate_mcq_Inr:
  assumes "fst (generate_mcq post loads coerce w text n difficulty) = Inr mcqs"
  shows "fst (generate_mcqs_from_text post loads coerce w text n difficulty) = Inr mcqs \<and>
         mcqs \<noteq> [] \<and> 1 \<le> n \<and> n \<le> 20"
  using assms
  by (cases "generate_mcqs_from_text post loads coerce w text n difficulty")
     (auto simp: generate_mcq_def split: if_splits sum.splits)

lemma generate_nothing_requested:
  assumes "n \<le> 0"
  shows "generate_mcqs_from_text post loads coerce w text n difficulty = (Inr [], [], w)"
proof -
  obtain c cs where "chunk_text text MAX_CHUNK_SIZE = c # cs"
    using chunk_text_not_Nil [of "text" MAX_CHUNK_SIZE] by (cases "chunk_text text MAX_CHUNK_SIZE") auto
  with assms show ?thesis by (simp add: generate_mcqs_from_text_def Let_def)
qed

text \<open>
  Claim C1. For every text, every requested count \<open>n_questions\<close> (a count is not negative),
  every behaviour of the generation service and every decoder, the list that
  \<open>generate_mcqs_from_text\<close> returns has at most \<open>n_questions\<close> elements; so has the list
  in the response of the request handler. Asked for no question or fewer, the function
  returns the empty list without calling the service.
\<close>

theorem generate_at_most_requested:
  "(0 \<le> n_questions \<longrightarrow>
      fst (generate_mcqs_from_text post loads coerce w text n_questions difficulty) = Inr mcqs \<longrightarrow>
      int (length mcqs) \<le> n_questions) \<and>
   (fst (generate_mcq post loads coerce w text n_questions difficulty) = Inr mcqs \<longrightarrow>
      int (length mcqs) \<le> n_questions) \<and>
   (n_questions \<le> 0 \<longrightarrow>
      generate_mcqs_from_text post loads coerce w text n_questions difficulty = (Inr [], [], w))"
proof -
  have A: "int (length mcqs) \<le> n_questions"
    if "0 \<le> n_questions"
      "fst (generate_mcqs_from_text post loads coerce w text n_questions difficulty) = Inr mcqs"
    for mcqs
    using that(2)
  proof (rule generate_from_loop)
    fix st'
    assume l: "chunks_loop post loads coerce n_questions difficulty
       (min MAX_QUESTIONS_PER_CHUNK
         (max 1 (n_questions div int (length (chunk_text text MAX_CHUNK_SIZE)))))
       (enumerate 0 (chunk_text text MAX_CHUNK_SIZE)) \<lparr>world = w, calls = [], all_mcqs = []\<rparr>
     = (None, st')" and m: "mcqs = all_mcqs st'"
    have "int (length (all_mcqs st')) \<le> n_questions"
      by (rule chunks_loop_preserves [OF l, where P = "\<lambda>all. int (length all) \<le> n_questions"])
         (simp_all add: that(1) add_valid_length_le)
    with m show ?thesis by simp
  qed
  have B: "int (length mcqs) \<le> n_questions"
    if "fst (generate_mcq post loads coerce w text n_questions difficulty) = Inr mcqs"
    using generate_mcq_Inr [OF that] A by simp
  from A B generate_nothing_requested [of n_questions post loads coerce w "text" difficulty]
  show ?thesis by blast
qed

theorem generate_at_most_requested_witness:
  "(0::int) \<le> 1 \<and>
   fst (generate_mcqs_from_text scripted sample_loads strict
          [reply (py ''['' @ record_text (py ''Q'') @ py '', '' @ record_text (py ''R'') @ py '']'')]
          (py ''some text'') 1 (py ''easy''))
     = Inr [\<lparr>question = py ''Q'', options = [py ''a'', py ''b'', py ''c'', py ''d''], answer = 0,
              explanation = Some []\<rparr>] \<and>
   int (length [\<lparr>question = py ''Q'', options = [py ''a'', py ''b'', py ''c'', py ''d''],
                 answer = 0, explanation = Some []\<rparr>]) \<le> 1"
  using generate_at_most_requested
    [of 1 scripted sample_loads strict
        "[reply (py ''['' @ record_text (py ''Q'') @ py '', '' @ record_text (py ''R'') @ py '']'')]"
        "py ''some text''" "py ''easy''"
        "[\<lparr>question = py ''Q'', options = [py ''a'', py ''b'', py ''c'', py ''d''], answer = 0,
              explanation = Some []\<rparr>]"]
  by (simp add: generate_mcqs_from_text_def chunk_text_def str_split_def isspace_def py_def
      MAX_CHUNK_SIZE_def MAX_QUESTIONS_PER_CHUNK_def space_def process_chunk_def ask_def
      call_ollama_generate_def reply_def extract_json_from_response_def second_strategy_def third_strategy_def
      table_loads_def sample_loads_def
      decode_table_def record_text_def record_value_def quoted_def py_iter_def validate_mcq_def
      as_int_def MCQ_new_def str_field_def optional_str_field_def strict_def)

lemma add_valid_validated:
  assumes "\<forall>m\<in>set all. \<exists>d. validate_mcq coerce d = Some m"
  shows "\<forall>m\<in>set (add_valid coerce n ds all). \<exists>d. validate_mcq coerce d = Some m"
  using assms add_valid_members [of _ coerce n ds all] by blast

text \<open>
  Claim C8, amended. Every MCQ in the list that \<open>generate_mcqs_from_text\<close> returns, and so
  every MCQ of a response of the request handler, is the result of validating a
  candidate record: it has exactly four options and an answer from 0 to 3. Nothing is
  required of the text of the question, which may be empty.
\<close>

theorem response_mcqs_validated:
  "(fst (generate_mcqs_from_text post loads coerce w text n_questions difficulty) = Inr mcqs \<or>
    fst (generate_mcq post loads coerce w text n_questions difficulty) = Inr mcqs) \<longrightarrow>
   (\<forall>m\<in>set mcqs.
      (\<exists>d. validate_mcq coerce d = Some m) \<and>
      length (options m) = 4 \<and> 0 \<le> answer m \<and> answer m \<le> 3)"
proof
  assume "fst (generate_mcqs_from_text post loads coerce w text n_questions difficulty) = Inr mcqs \<or>
    fst (generate_mcq post loads coerce w text n_questions difficulty) = Inr mcqs"
  then have "fst (generate_mcqs_from_text post loads coerce w text n_questions difficulty) = Inr mcqs"
    using generate_mcq_Inr [of post loads coerce w "text" n_questions difficulty mcqs] by blast
  then have v: "\<forall>m\<in>set mcqs. \<exists>d. validate_mcq coerce d = Some m"
  proof (rule generate_from_loop)
    fix st'
    assume l: "chunks_loop post loads coerce n_questions difficulty
       (min MAX_QUESTIONS_PER_CHUNK
         (max 1 (n_questions div int (length (chunk_text text MAX_CHUNK_SIZE)))))
       (enumerate 0 (chunk_text text MAX_CHUNK_SIZE)) \<lparr>world = w, calls = [], all_mcqs = []\<rparr>
     = (None, st')" and m: "mcqs = all_mcqs st'"
    have "\<forall>m\<in>set (all_mcqs st'). \<exists>d. validate_mcq coerce d = Some m"
      by (rule chunks_loop_preserves
            [OF l, where P = "\<lambda>all. \<forall>m\<in>set all. \<exists>d. validate_mcq coerce d = Some m"])
         (simp_all add: add_valid_validated)
    with m show ?thesis by simp
  qed
  show "\<forall>m\<in>set mcqs.
      (\<exists>d. validate_mcq coerce d = Some m) \<and>
      length (options m) = 4 \<and> 0 \<le> answer m \<and> answer m \<le> 3"
  proof
    fix m assume "m \<in> set mcqs"
    with v obtain d where "validate_mcq coerce d = Some m" by blast
    with validate_mcq_shape [OF this]
    show "(\<exists>d. validate_mcq coerce d = Some m) \<and>
      length (options m) = 4 \<and> 0 \<le> answer m \<and> answer m \<le> 3" by blast
  qed
qed

theorem response_mcqs_validated_witness:
  "fst (generate_mcq scripted sample_loads strict
          [reply (py ''['' @ record_text (py ''Q'') @ py '']'')]
          (py ''some text'') 1 (py ''easy''))
     = Inr [\<lparr>question = py ''Q'', options = [py ''a'', py ''b'', py ''c'', py ''d''], answer = 0,
              explanation = Some []\<rparr>] \<and>
   length (options \<lparr>question = py ''Q'', options = [py ''a'', py ''b'', py ''c'', py ''d''],
              answer = 0, explanation = Some []\<rparr>) = 4"
  using response_mcqs_validated
    [of scripted sample_loads strict
        "[reply (py ''['' @ record_text (py ''Q'') @ py '']'')]"
        "py ''some text''" 1 "py ''easy''"
        "[\<lparr>question = py ''Q'', options = [py ''a'', py ''b'', py ''c'', py ''d''], answer = 0,
              explanation = Some []\<rparr>]"]
  by (simp add: generate_mcq_def generate_mcqs_from_text_def chunk_text_def str_split_def
      isspace_def py_def
      MAX_CHUNK_SIZE_def MAX_QUESTIONS_PER_CHUNK_def space_def process_chunk_def ask_def
      call_ollama_generate_def reply_def extract_json_from_response_def second_strategy_def third_strategy_def
      table_loads_def sample_loads_def
      decode_table_def record_text_def record_value_def quoted_def py_iter_def validate_mcq_def
      as_int_def MCQ_new_def str_field_def optional_str_field_def strict_def)

text \<open>
  Claim C8 as stated fails: the validator never looks at the text of the question. When
  the service answers a valid request with one record whose question is the empty
  string, the response holds an MCQ with an empty question.
\<close>

theorem response_mcqs_validated_counterexample:
  "fst (generate_mcq scripted sample_loads strict
          [reply (py ''['' @ record_text [] @ py '']'')]
          (py ''some text'') 1 (py ''easy''))
     = Inr [\<lparr>question = [], options = [py ''a'', py ''b'', py ''c'', py ''d''], answer = 0,
              explanation = Some []\<rparr>] \<and>
   question \<lparr>question = [], options = [py ''a'', py ''b'', py ''c'', py ''d''], answer = 0,
              explanation = Some []\<rparr> = []"
  by (simp add: generate_mcq_def generate_mcqs_from_text_def chunk_text_def str_split_def
      isspace_def py_def
      MAX_CHUNK_SIZE_def MAX_QUESTIONS_PER_CHUNK_def space_def process_chunk_def ask_def
      call_ollama_generate_def reply_def extract_json_from_response_def second_strategy_def third_strategy_def
      table_loads_def sample_loads_def
      decode_table_def record_text_def record_value_def quoted_def py_iter_def validate_mcq_def
      as_int_def MCQ_new_def str_field_def optional_str_field_def strict_def)

lemma all_answered_snoc:
  "all_answered (cs @ [c]) \<longleftrightarrow> all_answered cs \<and> \<not> isl (outcome c)"
  by (simp add: all_answered_def)

lemma ask_trace:
  assumes "ask post loads coerce n idx retry p st = (r, st')"
    and "all_answered (calls st)"
  shows "(r = None \<longrightarrow> all_answered (calls st')) \<and>
         (all_answered (calls st') \<or> failed_last r (calls st'))"
proof (cases "fst (call_ollama_generate post (world st) p)")
  case (Inl e)
  with assms(1) have "r = Some e" by (rule ask_client_failure)
  with ask_calls [OF assms(1)] Inl assms(2) show ?thesis
    by (simp add: failed_last_def)
next
  case (Inr v)
  with ask_calls [OF assms(1)] assms(2) show ?thesis
    by (simp add: all_answered_snoc)
qed

lemma process_chunk_trace:
  assumes "process_chunk post loads coerce n difficulty qpc idx chunk st = (r, st')"
    and "all_answered (calls st)"
  shows "(r = None \<longrightarrow> all_answered (calls st')) \<and>
         (all_answered (calls st') \<or> failed_last r (calls st'))"
  using assms(1)
proof (cases rule: process_chunk_cases)
  case first
  from first(1) assms(2) show ?thesis by (rule ask_trace)
next
  case (retry st1)
  from ask_trace [OF retry(1) assms(2)] have "all_answered (calls st1)" by simp
  with retry(4) show ?thesis by (rule ask_trace)
qed

lemma chunks_loop_trace:
  assumes "chunks_loop post loads coerce n difficulty qpc ics st = (r, st')"
    and "all_answered (calls st)"
  shows "all_answered (calls st') \<or> failed_last r (calls st')"
  using assms
proof (induction ics arbitrary: st)
  case Nil
  then show ?case by simp
next
  case (Cons ic ics)
  obtain idx chunk where ic: "ic = (idx, chunk)" by (cases ic)
  show ?case
  proof (cases "n - int (length (all_mcqs st)) \<le> 0")
    case True
    with Cons.prems ic show ?thesis by simp
  next
    case False
    obtain r1 st1 where
      pc: "process_chunk post loads coerce n difficulty qpc idx chunk st = (r1, st1)"
      by (cases "process_chunk post loads coerce n difficulty qpc idx chunk st")
    note t = process_chunk_trace [OF pc Cons.prems(2)]
    show ?thesis
    proof (cases r1)
      case None
      with Cons.prems(1) ic False pc
      have "chunks_loop post loads coerce n difficulty qpc ics st1 = (r, st')" by simp
      moreover from t None have "all_answered (calls st1)" by simp
      ultimately show ?thesis by (rule Cons.IH)
    next
      case (Some e)
      with Cons.prems(1) ic False pc have "st' = st1" "r = r1" by simp_all
      with t show ?thesis by simp
    qed
  qed
qed

lemma failed_call_is_last:
  assumes "all_answered cs \<or> failed_last r cs" and "c \<in> set cs" and "outcome c = Inl e"
  shows "r = Some e \<and> c = last cs \<and> all_answered (butlast cs)"
proof -
  have isl: "isl (outcome c)" using assms(3) by simp
  with assms(2) have "\<not> all_answered cs"
    unfolding all_answered_def list_all_iff by blast
  with assms(1) have f: "failed_last r cs" by simp
  then have ne: "cs \<noteq> []" and b: "all_answered (butlast cs)" by (simp_all add: failed_last_def)
  from b isl have "c \<notin> set (butlast cs)"
    unfolding all_answered_def list_all_iff by blast
  with assms(2) ne have l: "c = last cs"
    by (metis append_butlast_last_id Un_iff empty_iff insert_iff list.set(1) list.set(2) set_append)
  with f assms(3) have "r = Some e" by (auto simp: failed_last_def split: option.splits)
  with l b show ?thesis by simp
qed

lemma generate_mcq_propagates:
  assumes "fst (generate_mcqs_from_text post loads coerce w text n difficulty) = Inl e"
    and "\<not> list_all isspace text" and "1 \<le> n" and "n \<le> 20"
    and "difficulty \<in> set [py ''easy'', py ''medium'', py ''hard'']"
  shows "fst (generate_mcq post loads coerce w text n difficulty) = Inl e"
  using assms
  by (cases "generate_mcqs_from_text post loads coerce w text n difficulty")
     (simp add: generate_mcq_def)

lemma call_ollama_generate_failures:
  "(case fst (post w0 p) of
      ConnectionError \<Rightarrow>
        fst (call_ollama_generate post w0 p) = Inl (HTTPException 503 CannotConnect)
    | Timeout \<Rightarrow> fst (call_ollama_generate post w0 p) = Inl (HTTPException 504 TimedOut)
    | OtherException \<Rightarrow>
        fst (call_ollama_generate post w0 p) = Inl (HTTPException 500 OllamaError)
    | Response status_code body \<Rightarrow>
        status_code \<noteq> 200 \<longrightarrow>
        fst (call_ollama_generate post w0 p) = Inl (HTTPException 500 OllamaError))"
  by (cases "post w0 p") (simp add: call_ollama_generate_def split: post_result.splits)

text \<open>
  Claim C5. When a call of the generation client fails, whatever the failure, the run
  ends there: the failed call is the last call made, every call before it was answered,
  and \<open>generate_mcqs_from_text\<close> ends with that error instead of a list, whatever had been
  accumulated; for a valid request the handler ends with the same error. A refused
  connection, a timeout, any other exception of the transport and a status other than 200
  are such failures, reported with status 503, 504, 500 and 500.
\<close>

theorem client_failure_is_terminal:
  assumes "c \<in> set (fst (snd (generate_mcqs_from_text post loads coerce w text n_questions difficulty)))"
    and "outcome c = Inl e"
  shows "fst (generate_mcqs_from_text post loads coerce w text n_questions difficulty) = Inl e \<and>
    c = last (fst (snd (generate_mcqs_from_text post loads coerce w text n_questions difficulty))) \<and>
    all_answered
      (butlast (fst (snd (generate_mcqs_from_text post loads coerce w text n_questions difficulty)))) \<and>
    (\<not> list_all isspace text \<and> 1 \<le> n_questions \<and> n_questions \<le> 20 \<and>
     difficulty \<in> set [py ''easy'', py ''medium'', py ''hard''] \<longrightarrow>
       fst (generate_mcq post loads coerce w text n_questions difficulty) = Inl e) \<and>
    (case fst (post w0 p) of
       ConnectionError \<Rightarrow>
         fst (call_ollama_generate post w0 p) = Inl (HTTPException 503 CannotConnect)
     | Timeout \<Rightarrow> fst (call_ollama_generate post w0 p) = Inl (HTTPException 504 TimedOut)
     | OtherException \<Rightarrow>
         fst (call_ollama_generate post w0 p) = Inl (HTTPException 500 OllamaError)
     | Response status_code body \<Rightarrow>
         status_code \<noteq> 200 \<longrightarrow>
         fst (call_ollama_generate post w0 p) = Inl (HTTPException 500 OllamaError))"
proof -
  obtain res cs w' where
    g: "generate_mcqs_from_text post loads coerce w text n_questions difficulty = (res, cs, w')"
    by (cases "generate_mcqs_from_text post loads coerce w text n_questions difficulty")
  from g have "res = Inl e \<and> c = last cs \<and> all_answered (butlast cs)"
  proof (rule generate_result)
    fix r st'
    assume l: "chunks_loop post loads coerce n_questions difficulty
       (min MAX_QUESTIONS_PER_CHUNK
         (max 1 (n_questions div int (length (chunk_text text MAX_CHUNK_SIZE)))))
       (enumerate 0 (chunk_text text MAX_CHUNK_SIZE)) \<lparr>world = w, calls = [], all_mcqs = []\<rparr>
     = (r, st')"
      and cs: "cs = calls st'"
      and res: "res = (case r of Some e \<Rightarrow> Inl e | None \<Rightarrow> Inr (all_mcqs st'))"
    have "all_answered (calls st') \<or> failed_last r (calls st')"
      by (rule chunks_loop_trace [OF l]) (simp add: all_answered_def)
    moreover from assms(1) g cs have "c \<in> set (calls st')" by simp
    ultimately have "r = Some e \<and> c = last (calls st') \<and> all_answered (butlast (calls st'))"
      using assms(2) by (rule failed_call_is_last)
    with cs res show ?thesis by simp
  qed
  with g generate_mcq_propagates [of post loads coerce w "text" n_questions difficulty e]
  have "fst (generate_mcqs_from_text post loads coerce w text n_questions difficulty) = Inl e \<and>
    c = last (fst (snd (generate_mcqs_from_text post loads coerce w text n_questions difficulty))) \<and>
    all_answered
      (butlast (fst (snd (generate_mcqs_from_text post loads coerce w text n_questions difficulty)))) \<and>
    (\<not> list_all isspace text \<and> 1 \<le> n_questions \<and> n_questions \<le> 20 \<and>
     difficulty \<in> set [py ''easy'', py ''medium'', py ''hard''] \<longrightarrow>
       fst (generate_mcq post loads coerce w text n_questions difficulty) = Inl e)"
    by simp
  with call_ollama_generate_failures [of post w0 p] show ?thesis by blast
qed

text \<open>A text of two words, the first as long as the whole budget: two chunks.\<close>

lemma long_text_chunks:
  "chunk_text (replicate 10000 97 @ [32, 98]) MAX_CHUNK_SIZE = [replicate 10000 97, [98]]"
proof -
  have "split_from [] (replicate 10000 97 @ [32, 98]) = split_from ([] @ replicate 10000 97) [32, 98]"
    by (rule split_from_append) (simp add: isspace_def)
  then have "str_split (replicate 10000 97 @ [32, 98]) = [replicate 10000 97, [98]]"
    by (simp add: str_split_def isspace_def)
  then show ?thesis
    by (simp add: chunk_text_def MAX_CHUNK_SIZE_def)
qed

theorem client_failure_is_terminal_witness:
  "map outcome
     (fst (snd (generate_mcqs_from_text scripted sample_loads strict
       [reply (py ''['' @ record_text (py ''Q'') @ py '']''), ConnectionError]
       (replicate 10000 97 @ [32, 98]) 2 (py ''easy'')))) =
     [Inr (JString (py ''['' @ record_text (py ''Q'') @ py '']'')),
      Inl (HTTPException 503 CannotConnect)] \<and>
   fst (generate_mcqs_from_text scripted sample_loads strict
       [reply (py ''['' @ record_text (py ''Q'') @ py '']''), ConnectionError]
       (replicate 10000 97 @ [32, 98]) 2 (py ''easy'')) = Inl (HTTPException 503 CannotConnect) \<and>
   fst (generate_mcq scripted sample_loads strict
       [reply (py ''['' @ record_text (py ''Q'') @ py '']''), ConnectionError]
       (replicate 10000 97 @ [32, 98]) 2 (py ''easy'')) = Inl (HTTPException 503 CannotConnect)"
  using client_failure_is_terminal
    [of "last (fst (snd (generate_mcqs_from_text scripted sample_loads strict
       [reply (py ''['' @ record_text (py ''Q'') @ py '']''), ConnectionError]
       (replicate 10000 97 @ [32, 98]) 2 (py ''easy''))))"
      scripted sample_loads strict
      "[reply (py ''['' @ record_text (py ''Q'') @ py '']''), ConnectionError]"
      "replicate 10000 97 @ [32, 98]" 2 "py ''easy''" "HTTPException 503 CannotConnect"]
  by (simp add: generate_mcqs_from_text_def long_text_chunks isspace_def py_def
      MAX_QUESTIONS_PER_CHUNK_def process_chunk_def ask_def
      call_ollama_generate_def reply_def extract_json_from_response_def second_strategy_def third_strategy_def
      table_loads_def sample_loads_def
      decode_table_def record_text_def record_value_def quoted_def py_iter_def validate_mcq_def
      as_int_def MCQ_new_def str_field_def optional_str_field_def strict_def)

lemma process_chunk_later:
  assumes "process_chunk post loads coerce n difficulty qpc idx chunk st = (r, st')"
    and "idx \<noteq> 0"
  shows "\<exists>c. calls st' = calls st @ [c] \<and> \<not> is_retry c \<and> chunk_idx c = idx"
  using assms(1)
proof (cases rule: process_chunk_cases)
  case first
  from ask_calls [OF first(1)] show ?thesis by simp
next
  case (retry st1)
  with assms(2) show ?thesis by simp
qed

lemma chunks_loop_later:
  assumes "chunks_loop post loads coerce n difficulty qpc ics st = (r, st')"
    and "\<forall>ic\<in>set ics. fst ic \<noteq> 0"
  shows "\<exists>new. calls st' = calls st @ new \<and> (\<forall>c\<in>set new. \<not> is_retry c \<and> chunk_idx c \<noteq> 0)"
  using assms
proof (induction ics arbitrary: st)
  case Nil
  then show ?case by simp
next
  case (Cons ic ics)
  obtain idx chunk where ic: "ic = (idx, chunk)" by (cases ic)
  with Cons.prems(2) have idx: "idx \<noteq> 0" by simp
  show ?case
  proof (cases "n - int (length (all_mcqs st)) \<le> 0")
    case True
    with Cons.prems ic show ?thesis by simp
  next
    case False
    obtain r1 st1 where
      pc: "process_chunk post loads coerce n difficulty qpc idx chunk st = (r1, st1)"
      by (cases "process_chunk post loads coerce n difficulty qpc idx chunk st")
    from process_chunk_later [OF pc idx] obtain c where
      c: "calls st1 = calls st @ [c]" "\<not> is_retry c" "chunk_idx c \<noteq> 0"
      using idx by auto
    show ?thesis
    proof (cases r1)
      case None
      with Cons.prems(1) ic False pc
      have "chunks_loop post loads coerce n difficulty qpc ics st1 = (r, st')" by simp
      from Cons.IH [OF this] Cons.prems(2) obtain new where
        "calls st' = calls st1 @ new" "\<forall>c\<in>set new. \<not> is_retry c \<and> chunk_idx c \<noteq> 0"
        by auto
      with c have "calls st' = calls st @ (c # new) \<and>
          (\<forall>c\<in>set (c # new). \<not> is_retry c \<and> chunk_idx c \<noteq> 0)" by simp
      then show ?thesis by blast
    next
      case (Some e)
      with Cons.prems(1) ic False pc have "st' = st1" by simp
      with c have "calls st' = calls st @ [c] \<and>
          (\<forall>c\<in>set [c]. \<not> is_retry c \<and> chunk_idx c \<noteq> 0)" by simp
      then show ?thesis by blast
    qed
  qed
qed

lemma enumerate_later: "\<forall>ic\<in>set (enumerate (Suc 0) xs). fst ic \<noteq> 0"
  by (auto simp: in_set_enumerate_eq)

text \<open>
  The shape of the list of calls of a run: nothing; or the call for the first chunk and
  then calls for later chunks; or the call for the first chunk, its retry, and then calls
  for later chunks. The retry is there exactly when the first reply was parsed and every
  candidate in it was rejected.
\<close>

lemma generate_calls_shape:
  assumes "generate_mcqs_from_text post loads coerce w text n difficulty = (res, cs, w')"
  obtains (none) "n \<le> 0" "cs = []"
  | (single) c0 new where "0 < n" "cs = c0 # new" "chunk_idx c0 = 0" "\<not> is_retry c0"
      "\<forall>c\<in>set new. \<not> is_retry c \<and> chunk_idx c \<noteq> 0"
      "\<not> (\<exists>s data ds. outcome c0 = Inr (JString s) \<and>
            extract_json_from_response loads s = Inr data \<and> py_iter data = Inr ds \<and>
            (\<forall>d\<in>set ds. validate_mcq coerce d = None))"
  | (retried) c0 c1 new where "0 < n" "cs = c0 # c1 # new" "chunk_idx c0 = 0" "\<not> is_retry c0"
      "is_retry c1" "chunk_idx c1 = 0" "prompt c1 = prompt c0 @ retry_instruction"
      "\<forall>c\<in>set new. \<not> is_retry c \<and> chunk_idx c \<noteq> 0"
      "\<exists>s data ds. outcome c0 = Inr (JString s) \<and>
            extract_json_from_response loads s = Inr data \<and> py_iter data = Inr ds \<and>
            (\<forall>d\<in>set ds. validate_mcq coerce d = None)"
proof -
  let ?qpc = "min MAX_QUESTIONS_PER_CHUNK
      (max 1 (n div int (length (chunk_text text MAX_CHUNK_SIZE))))"
  let ?st0 = "\<lparr>world = w, calls = [], all_mcqs = []\<rparr>"
  obtain chunk rest where ch: "chunk_text text MAX_CHUNK_SIZE = chunk # rest"
    using chunk_text_not_Nil [of "text" MAX_CHUNK_SIZE]
    by (cases "chunk_text text MAX_CHUNK_SIZE") auto
  from assms obtain r st' where
    l: "chunks_loop post loads coerce n difficulty ?qpc
          ((0, chunk) # enumerate (Suc 0) rest) ?st0 = (r, st')"
    and cs: "cs = calls st'"
    by (rule generate_result) (simp add: ch)
  show thesis
  proof (cases "n \<le> 0")
    case True
    with l have "st' = ?st0" by simp
    with cs have "cs = []" by simp
    with True show thesis by (rule none)
  next
    case False
    then have pos: "0 < n" by simp
    obtain r1 st1 where
      pc: "process_chunk post loads coerce n difficulty ?qpc 0 chunk ?st0 = (r1, st1)"
      by (cases "process_chunk post loads coerce n difficulty ?qpc 0 chunk ?st0")
    have tail: "\<exists>new. calls st' = calls st1 @ new \<and>
        (\<forall>c\<in>set new. \<not> is_retry c \<and> chunk_idx c \<noteq> 0)"
    proof (cases r1)
      case None
      with l pc False
      have "chunks_loop post loads coerce n difficulty ?qpc (enumerate (Suc 0) rest) st1 = (r, st')"
        by simp
      then show ?thesis using enumerate_later by (rule chunks_loop_later)
    next
      case (Some e)
      with l pc False have "st' = st1" by simp
      then show ?thesis by simp
    qed
    then obtain new where new: "calls st' = calls st1 @ new"
      "\<forall>c\<in>set new. \<not> is_retry c \<and> chunk_idx c \<noteq> 0" by blast
    let ?p = "format_prompt (min (n - int (length (all_mcqs ?st0))) ?qpc) difficulty (take 3000 chunk)"
    let ?c0 = "\<lparr>chunk_idx = 0, is_retry = False, prompt = ?p,
        outcome = fst (call_ollama_generate post (world ?st0) ?p)\<rparr>"
    from pc show thesis
    proof (cases rule: process_chunk_cases)
      case first
      from ask_calls [OF first(1)] have c: "calls st1 = [?c0]" by simp
      have no: "\<not> (\<exists>s data ds. outcome ?c0 = Inr (JString s) \<and>
            extract_json_from_response loads s = Inr data \<and> py_iter data = Inr ds \<and>
            (\<forall>d\<in>set ds. validate_mcq coerce d = None))"
      proof
        assume "\<exists>s data ds. outcome ?c0 = Inr (JString s) \<and>
            extract_json_from_response loads s = Inr data \<and> py_iter data = Inr ds \<and>
            (\<forall>d\<in>set ds. validate_mcq coerce d = None)"
        then obtain s data ds where
          o: "fst (call_ollama_generate post (world ?st0) ?p) = Inr (JString s)"
          and ex: "extract_json_from_response loads s = Inr data"
          and it: "py_iter data = Inr ds"
          and nv: "\<forall>d\<in>set ds. validate_mcq coerce d = None" by auto
        from ask_succeeds [OF o ex it, of coerce n 0 False] first(1) have rN: "r1 = None" by auto
        with first(1) have "ask post loads coerce n 0 False ?p ?st0 = (None, st1)" by simp
        from ask_None [OF this] o ex it have "all_mcqs st1 = add_valid coerce n ds []" by auto
        with nv have "all_mcqs st1 = []" by (simp add: add_valid_none)
        with rN first(2) show False by simp
      qed
      from cs new c have "cs = ?c0 # new" by simp
      with pos show thesis using _ _ new(2) no by (rule single) simp_all
    next
      case (retry st1')
      from ask_calls [OF retry(1)] have c: "calls st1' = [?c0]" by simp
      let ?c1 = "\<lparr>chunk_idx = 0, is_retry = True, prompt = ?p @ retry_instruction,
        outcome = fst (call_ollama_generate post (world st1') (?p @ retry_instruction))\<rparr>"
      from ask_calls [OF retry(4)] c have c1: "calls st1 = [?c0, ?c1]" by simp
      from ask_None [OF retry(1)] obtain s data ds where
        o: "fst (call_ollama_generate post (world ?st0) ?p) = Inr (JString s)"
        and ex: "extract_json_from_response loads s = Inr data"
        and it: "py_iter data = Inr ds"
        and av: "all_mcqs st1' = add_valid coerce n ds (all_mcqs ?st0)" by blast
      from av retry(2) have "add_valid coerce n ds [] = []" by simp
      with pos have "\<forall>d\<in>set ds. validate_mcq coerce d = None"
        by (simp add: add_valid_empty_iff)
      with o ex it have yes: "\<exists>s data ds. outcome ?c0 = Inr (JString s) \<and>
            extract_json_from_response loads s = Inr data \<and> py_iter data = Inr ds \<and>
            (\<forall>d\<in>set ds. validate_mcq coerce d = None)" by auto
      from cs new c1 have "cs = ?c0 # ?c1 # new" by simp
      with pos show thesis using _ _ _ _ _ new(2) yes by (rule retried) simp_all
    qed
  qed
qed

text \<open>
  Claim C6. In every run the retry call is made at most once and only for the first
  chunk (index 0). It is made exactly when the call for the first chunk was answered, the
  answer was parsed and no candidate in it was accepted, so that no MCQ was accumulated.
  When made, it is the second call of the run, its prompt is the first prompt followed by
  the JSON-only instruction, and no later call is a retry or belongs to chunk 0.
\<close>

theorem retry_at_most_once:
  assumes "cs = fst (snd (generate_mcqs_from_text post loads coerce w text n_questions difficulty))"
  shows "length (filter is_retry cs) \<le> 1 \<and>
     (\<forall>c\<in>set cs. is_retry c \<longrightarrow> chunk_idx c = 0) \<and>
     ((\<exists>c\<in>set cs. is_retry c) \<longleftrightarrow>
        (\<exists>c0 rest s data ds. cs = c0 # rest \<and> chunk_idx c0 = 0 \<and> \<not> is_retry c0 \<and>
           outcome c0 = Inr (JString s) \<and>
           extract_json_from_response loads s = Inr data \<and> py_iter data = Inr ds \<and>
           (\<forall>d\<in>set ds. validate_mcq coerce d = None))) \<and>
     (\<forall>c\<in>set cs. is_retry c \<longrightarrow>
        (\<exists>c0 rest. cs = c0 # c # rest \<and> \<not> is_retry c0 \<and>
           prompt c = prompt c0 @ retry_instruction \<and>
           (\<forall>c'\<in>set rest. \<not> is_retry c' \<and> chunk_idx c' \<noteq> 0)))"
proof -
  obtain res w' where
    g: "generate_mcqs_from_text post loads coerce w text n_questions difficulty = (res, cs, w')"
    using assms
    by (cases "generate_mcqs_from_text post loads coerce w text n_questions difficulty") simp
  have nr: "filter is_retry new = []" if "\<forall>c\<in>set new. \<not> is_retry c \<and> chunk_idx c \<noteq> 0"
    for new :: "call list"
    using that by (simp add: filter_empty_conv)
  from g show ?thesis
  proof (cases rule: generate_calls_shape)
    case none
    then show ?thesis by simp
  next
    case (single c0 new)
    have 1: "length (filter is_retry cs) \<le> 1"
      using single(2,4) nr [OF single(5)] by simp
    have noretry: "\<forall>c\<in>set cs. \<not> is_retry c"
      using single(2,4,5) by auto
    have 3: "\<not> (\<exists>c0 rest s data ds. cs = c0 # rest \<and> chunk_idx c0 = 0 \<and> \<not> is_retry c0 \<and>
           outcome c0 = Inr (JString s) \<and>
           extract_json_from_response loads s = Inr data \<and> py_iter data = Inr ds \<and>
           (\<forall>d\<in>set ds. validate_mcq coerce d = None))"
      using single(2,6) by auto
    from 1 noretry 3 show ?thesis by blast
  next
    case (retried c0 c1 new)
    have 1: "length (filter is_retry cs) \<le> 1"
      using retried(2,4,5) nr [OF retried(8)] by simp
    have only: "c = c1" if "c \<in> set cs" "is_retry c" for c
      using that retried(2,4,8) by auto
    have 2: "\<forall>c\<in>set cs. is_retry c \<longrightarrow> chunk_idx c = 0"
      using only retried(6) by blast
    have ex: "\<exists>c\<in>set cs. is_retry c"
      using retried(2,5) by auto
    have 3: "\<exists>c0 rest s data ds. cs = c0 # rest \<and> chunk_idx c0 = 0 \<and> \<not> is_retry c0 \<and>
           outcome c0 = Inr (JString s) \<and>
           extract_json_from_response loads s = Inr data \<and> py_iter data = Inr ds \<and>
           (\<forall>d\<in>set ds. validate_mcq coerce d = None)"
      using retried(2,3,4,9) by blast
    have 4: "\<forall>c\<in>set cs. is_retry c \<longrightarrow>
        (\<exists>c0 rest. cs = c0 # c # rest \<and> \<not> is_retry c0 \<and>
           prompt c = prompt c0 @ retry_instruction \<and>
           (\<forall>c'\<in>set rest. \<not> is_retry c' \<and> chunk_idx c' \<noteq> 0))"
    proof (intro ballI impI)
      fix c assume "c \<in> set cs" "is_retry c"
      then have "c = c1" by (rule only)
      with retried(2,4,7,8)
      show "\<exists>c0 rest. cs = c0 # c # rest \<and> \<not> is_retry c0 \<and>
           prompt c = prompt c0 @ retry_instruction \<and>
           (\<forall>c'\<in>set rest. \<not> is_retry c' \<and> chunk_idx c' \<noteq> 0)" by blast
    qed
    from 1 2 ex 3 4 show ?thesis by blast
  qed
qed

theorem retry_at_most_once_witness:
  "map (\<lambda>c. (chunk_idx c, is_retry c, outcome c))
     (fst (snd (generate_mcqs_from_text scripted sample_loads strict
       [reply (py ''[]''), reply (py ''['' @ record_text (py ''Q'') @ py '']'')]
       (py ''some text'') 3 (py ''easy'')))) =
     [(0, False, Inr (JString (py ''[]''))),
      (0, True, Inr (JString (py ''['' @ record_text (py ''Q'') @ py '']'')))] \<and>
   fst (generate_mcqs_from_text scripted sample_loads strict
       [reply (py ''[]''), reply (py ''['' @ record_text (py ''Q'') @ py '']'')]
       (py ''some text'') 3 (py ''easy'')) =
     Inr [\<lparr>question = py ''Q'', options = [py ''a'', py ''b'', py ''c'', py ''d''], answer = 0,
              explanation = Some []\<rparr>] \<and>
   length (filter is_retry
     (fst (snd (generate_mcqs_from_text scripted sample_loads strict
       [reply (py ''[]''), reply (py ''['' @ record_text (py ''Q'') @ py '']'')]
       (py ''some text'') 3 (py ''easy''))))) = 1"
  using retry_at_most_once
    [OF refl, of scripted sample_loads strict
       "[reply (py ''[]''), reply (py ''['' @ record_text (py ''Q'') @ py '']'')]"
       "py ''some text''" 3 "py ''easy''"]
  by (simp add: generate_mcqs_from_text_def chunk_text_def str_split_def isspace_def py_def
      MAX_CHUNK_SIZE_def MAX_QUESTIONS_PER_CHUNK_def space_def process_chunk_def ask_def
      call_ollama_generate_def reply_def extract_json_from_response_def second_strategy_def third_strategy_def
      table_loads_def sample_loads_def
      decode_table_def record_text_def record_value_def quoted_def py_iter_def validate_mcq_def
      as_int_def MCQ_new_def str_field_def optional_str_field_def strict_def Let_def)

end
